theory Spec2Isabelle
  imports Main
begin

section \<open>Characters as the C code reads them\<close>

text \<open>
  The board and every token are arrays of C \<open>char\<close>.  \<open>char_code\<close> is the value of a
  \<open>char\<close> promoted to \<open>int\<close> on a platform where \<open>char\<close> is signed; the classification
  functions are those of the C locale.
\<close>

definition char_code :: "char \<Rightarrow> int" where
  "char_code c = (let n = of_char c in if n < 128 then n else n - 256)"

definition isupper :: "char \<Rightarrow> bool" where
  "isupper c = (65 \<le> char_code c \<and> char_code c \<le> 90)"

definition islower :: "char \<Rightarrow> bool" where
  "islower c = (97 \<le> char_code c \<and> char_code c \<le> 122)"

definition isdigit :: "char \<Rightarrow> bool" where
  "isdigit c = (48 \<le> char_code c \<and> char_code c \<le> 57)"

definition toupper :: "char \<Rightarrow> char" where
  "toupper c = (if islower c then char_of (char_code c - 32) else c)"

definition tolower :: "char \<Rightarrow> char" where
  "tolower c = (if isupper c then char_of (char_code c + 32) else c)"

definition is_white_piece :: "char \<Rightarrow> bool" where
  "is_white_piece piece = (char_code (CHR ''A'') \<le> char_code piece \<and> char_code piece \<le> char_code (CHR ''Z''))"

section \<open>The board\<close>

text \<open>
  \<open>char board[8][8]\<close>, indexed \<open>board[r][f]\<close>: a piece letter (upper case White, lower case
  Black) or \<open>'.'\<close> for an empty square.  The C indices are \<open>int\<close>; an index outside
  \<open>0..7\<close> is outside the array.
\<close>

type_synonym board = "int \<times> int \<Rightarrow> char"

definition on_board :: "int \<Rightarrow> int \<Rightarrow> bool" where
  "on_board r f = (0 \<le> r \<and> r < 8 \<and> 0 \<le> f \<and> f < 8)"

definition sign :: "int \<Rightarrow> int" where
  "sign x = (if x > 0 then 1 else if x < 0 then -1 else 0)"

function path_loop :: "board \<Rightarrow> int \<Rightarrow> int \<Rightarrow> int \<Rightarrow> int \<Rightarrow> int \<Rightarrow> int \<Rightarrow> bool" where
  "path_loop b from_r from_f dr df steps i =
     (if i < steps then
        (if b (from_r + i * dr, from_f + i * df) \<noteq> CHR ''.'' then False
         else path_loop b from_r from_f dr df steps (i + 1))
      else True)"
  by pat_completeness auto
termination
  by (relation "measure (\<lambda>(b, from_r, from_f, dr, df, steps, i). nat (steps - i))") auto

declare path_loop.simps [simp del]

definition is_path_clear :: "board \<Rightarrow> int \<Rightarrow> int \<Rightarrow> int \<Rightarrow> int \<Rightarrow> bool" where
  "is_path_clear b from_r from_f to_r to_f =
     (let dr = sign (to_r - from_r);
          df = sign (to_f - from_f);
          steps = (if dr = 0 then \<bar>to_f - from_f\<bar> else \<bar>to_r - from_r\<bar>)
      in path_loop b from_r from_f dr df steps 1)"

definition is_valid_move :: "board \<Rightarrow> char \<Rightarrow> int \<Rightarrow> int \<Rightarrow> int \<Rightarrow> int \<Rightarrow> bool \<Rightarrow> bool \<Rightarrow> bool" where
  "is_valid_move b piece from_r from_f to_r to_f is_white capture =
     (let dr = \<bar>to_r - from_r\<bar>;
          df = \<bar>to_f - from_f\<bar>;
          p = toupper piece;
          dir = (if is_white then -1 else 1);
          at_to = b (to_r, to_f);
          is_empty = (at_to = CHR ''.'');
          is_enemy = (\<not> is_empty \<and> is_white_piece at_to \<noteq> is_white);
          movement_valid =
            (if p = CHR ''P'' then
               (if df = 0 then
                  (if capture then False
                   else if \<not> is_empty then False
                   else if dr = 1 \<and> to_r - from_r = dir then True
                   else if dr = 2 \<and> ((is_white \<and> from_r = 6) \<or> (\<not> is_white \<and> from_r = 1))
                           \<and> to_r - from_r = 2 * dir
                        then is_path_clear b from_r from_f to_r to_f
                   else False)
                else if df = 1 \<and> dr = 1 \<and> to_r - from_r = dir then
                  (if capture \<and> is_enemy then True
                   else if capture \<and> is_empty then
                     (let ep_rank = (if is_white then 3 else 4)
                      in from_r = ep_rank
                         \<and> b (from_r, to_f) = (if is_white then CHR ''p'' else CHR ''P''))
                   else False)
                else False)
             else if p = CHR ''N'' then (dr = 1 \<and> df = 2) \<or> (dr = 2 \<and> df = 1)
             else if p = CHR ''B'' then
               dr = df \<and> dr > 0 \<and> is_path_clear b from_r from_f to_r to_f
             else if p = CHR ''R'' then
               (dr = 0 \<or> df = 0) \<and> dr + df > 0 \<and> is_path_clear b from_r from_f to_r to_f
             else if p = CHR ''Q'' then
               (dr = df \<or> (dr = 0 \<or> df = 0)) \<and> dr + df > 0
               \<and> is_path_clear b from_r from_f to_r to_f
             else if p = CHR ''K'' then dr \<le> 1 \<and> df \<le> 1 \<and> dr + df > 0
             else False)
      in if movement_valid then
           (if capture then is_enemy \<or> (p = CHR ''P'' \<and> is_empty \<and> movement_valid)
            else is_empty)
         else False)"

section \<open>Check detection\<close>

text \<open>
  The two nested \<open>for\<close> loops over \<open>r\<close> and \<open>f\<close> visit the squares in the order of
  \<open>all_squares\<close>: rank-major, file-minor.
\<close>

definition idx8 :: "int list" where
  "idx8 = [0, 1, 2, 3, 4, 5, 6, 7]"

definition all_squares :: "(int \<times> int) list" where
  "all_squares = List.product idx8 idx8"

text \<open>The king search of \<open>is_in_check\<close>: the first square holding \<open>king\<close>, if any.\<close>

definition find_king :: "board \<Rightarrow> char \<Rightarrow> (int \<times> int) option" where
  "find_king b king = find (\<lambda>sq. b sq = king) all_squares"

definition attacks :: "board \<Rightarrow> bool \<Rightarrow> int \<Rightarrow> int \<Rightarrow> int \<times> int \<Rightarrow> bool" where
  "attacks b opponent_is_white king_r king_f sq =
     (let p = b sq
      in if p = CHR ''.'' \<or> is_white_piece p \<noteq> opponent_is_white then False
         else is_valid_move b p (fst sq) (snd sq) king_r king_f opponent_is_white True)"

definition is_in_check :: "board \<Rightarrow> bool \<Rightarrow> bool" where
  "is_in_check b is_white =
     (let king = (if is_white then CHR ''K'' else CHR ''k'')
      in case find_king b king of
           None \<Rightarrow> False
         | Some (king_r, king_f) \<Rightarrow>
             (let opponent_is_white = \<not> is_white
              in list_ex (attacks b opponent_is_white king_r king_f) all_squares))"

section \<open>Moves and their application\<close>

text \<open>
  \<open>struct Move\<close>.  The field \<open>promo\<close> is a \<open>char\<close>; the NUL character means that the move
  is no promotion.
\<close>

record Move =
  from_r :: int
  from_f :: int
  to_r :: int
  to_f :: int
  promo :: char

text \<open>
  The C code indexes the board with the move's coordinates and with \<open>to_r - dir\<close>
  unchecked.  A read or write outside the array is undefined behaviour; the model
  reports it as \<open>OutOfBounds\<close>.  \<open>BufferOverrun\<close> is the same for the fixed-size
  character and candidate buffers of \<open>parse_san\<close>.
\<close>

datatype error = OutOfBounds | BufferOverrun

definition apply_move :: "Move \<Rightarrow> bool \<Rightarrow> board \<Rightarrow> error + board" where
  "apply_move m is_white b =
     (if \<not> on_board (from_r m) (from_f m) \<or> \<not> on_board (to_r m) (to_f m) then Inl OutOfBounds
      else
        let piece = b (from_r m, from_f m);
            captured = b (to_r m, to_f m);
            dir = (if is_white then -1 else 1);
            en_passant = (toupper piece = CHR ''P'' \<and> \<bar>from_f m - to_f m\<bar> = 1
                          \<and> captured = CHR ''.'')
        in if en_passant \<and> \<not> on_board (to_r m - dir) (to_f m) then Inl OutOfBounds
           else
             let b1 = (if en_passant then b((to_r m - dir, to_f m) := CHR ''.'') else b);
                 b2 = b1((to_r m, to_f m) :=
                        (if promo m \<noteq> CHR 0x00
                         then (if is_white then toupper (promo m) else tolower (promo m))
                         else piece));
                 b3 = b2((from_r m, from_f m) := CHR ''.'')
             in if toupper piece = CHR ''K'' \<and> \<bar>from_f m - to_f m\<bar> = 2 then
                  (let rook_from = (if to_f m > from_f m then 7 else 0);
                       rook_to = (if to_f m > from_f m then 5 else 3);
                       rook = (if is_white then CHR ''R'' else CHR ''r'');
                       b4 = b3((from_r m, rook_to) := rook)
                   in Inr (b4((from_r m, rook_from) := CHR ''.'')))
                else Inr b3)"

text \<open>
  A board written as its eight rows, row 0 (the eighth rank) first, and \<open>init_board\<close>,
  the initial position.
\<close>

definition board_of_rows :: "string list \<Rightarrow> board" where
  "board_of_rows rows =
     (\<lambda>(r, f). if on_board r f then rows ! nat r ! nat f else CHR ''.'')"

definition init_board :: board where
  "init_board = board_of_rows
     [''rnbqkbnr'',
      ''pppppppp'',
      ''........'',
      ''........'',
      ''........'',
      ''........'',
      ''PPPPPPPP'',
      ''RNBQKBNR'']"

section \<open>Resolving a SAN token\<close>

text \<open>
  \<open>parse_san\<close> in three stages.  \<open>decode_san\<close> is the text processing, up to the
  computation of \<open>target_piece\<close>, with \<open>decode_target\<close> and \<open>hints\<close> its later parts;
  \<open>find_candidates\<close> is the scan of the board that fills the array \<open>candidates\<close>;
  \<open>resolve\<close> is the choice among the candidates, with \<open>try_candidates\<close> its final loop.
  A token is a NUL-terminated C string, here the list of its characters before the NUL.

  The function returns 1 with the move stored through its pointer argument, or 0, in
  which case its callers drop what was stored.  The model returns \<open>Some\<close> of the move, or
  \<open>None\<close>, together with the board the call leaves behind.  \<open>Target\<close> holds the local
  variables that the later stages read.
\<close>

record Target =
  target_piece :: char
  target_r :: int
  target_f :: int
  capture :: bool
  hint_f :: int
  hint_r :: int
  target_promo :: char

datatype decoded = Castling Move | NoMove | Resolve Target

definition strip_check :: "string \<Rightarrow> string" where
  "strip_check s = (if last s = CHR ''+'' \<or> last s = CHR ''#'' then butlast s else s)"

definition castle_move :: "bool \<Rightarrow> int \<Rightarrow> Move" where
  "castle_move is_white file =
     \<lparr>from_r = (if is_white then 7 else 0), from_f = 4,
      to_r = (if is_white then 7 else 0), to_f = file, promo = CHR 0x00\<rparr>"

text \<open>
  \<open>strchr(clean_san, '=')\<close>: the promotion letter is the character after the first
  \<open>'='\<close> (the terminating NUL when nothing follows), and the string is cut there.
\<close>

definition split_promo :: "string \<Rightarrow> char \<times> string" where
  "split_promo s =
     (if CHR ''='' \<in> set s then
        ((case drop 1 (dropWhile (\<lambda>c. c \<noteq> CHR ''='') s) of [] \<Rightarrow> CHR 0x00 | c # _ \<Rightarrow> c),
         takeWhile (\<lambda>c. c \<noteq> CHR ''='') s)
      else (CHR 0x00, s))"

function capture_loop :: "string \<Rightarrow> int \<Rightarrow> int \<Rightarrow> int" where
  "capture_loop s len i =
     (if i < len - 2 then
        (if s ! nat i = CHR ''x'' then i else capture_loop s len (i + 1))
      else 0)"
  by pat_completeness auto
termination
  by (relation "measure (\<lambda>(s, len, i). nat (len - i))") auto

declare capture_loop.simps [simp del]

text \<open>
  The disambiguation hint: \<open>hint_f\<close> and \<open>hint_r\<close> as computed from \<open>hint_str\<close>, each -1
  when the hint does not give it.
\<close>

definition hints :: "string \<Rightarrow> int \<times> int" where
  "hints hint_str =
     (let hl = length hint_str
      in if hl = 1 then
           (if islower (hint_str ! 0)
              then (char_code (hint_str ! 0) - char_code (CHR ''a''), -1)
            else if isdigit (hint_str ! 0)
              then (-1, 7 - (char_code (hint_str ! 0) - char_code (CHR ''1'')))
            else (-1, -1))
         else if hl = 2 then
           (char_code (hint_str ! 0) - char_code (CHR ''a''),
            7 - (char_code (hint_str ! 1) - char_code (CHR ''1'')))
         else (-1, -1))"

text \<open>
  The part of \<open>parse_san\<close> after the promotion suffix has been cut off: destination,
  piece letter, capture marker and hint.  \<open>hint_str\<close> has room for three characters and
  the terminating NUL.
\<close>

definition decode_target :: "string \<Rightarrow> char \<Rightarrow> bool \<Rightarrow> error + decoded" where
  "decode_target clean_san pr is_white =
     (let len = int (length clean_san)
      in if len < 2 then Inr NoMove
         else
           let to_f = char_code (clean_san ! nat (len - 2)) - char_code (CHR ''a'');
               to_r = 7 - (char_code (clean_san ! nat (len - 1)) - char_code (CHR ''1''))
           in if to_r < 0 \<or> to_r \<ge> 8 \<or> to_f < 0 \<or> to_f \<ge> 8 then Inr NoMove
              else
                let named = (isupper (clean_san ! 0) \<and> clean_san ! 0 \<in> set ''RNBQK'');
                    piece = (if named then clean_san ! 0 else CHR ''P'');
                    hint_start = (if named then 1 else 0);
                    capture_pos = capture_loop clean_san len hint_start;
                    hint_len = (if capture_pos > 0 then capture_pos else len - 2) - hint_start
                in if hint_len \<ge> 4 then Inl BufferOverrun
                   else
                     let hint_str = (if hint_len > 0
                                     then take (nat hint_len) (drop (nat hint_start) clean_san)
                                     else []);
                         (hf, hr) = hints hint_str
                     in Inr (Resolve
                          \<lparr>target_piece = (if is_white then piece else tolower piece),
                           target_r = to_r, target_f = to_f,
                           capture = (capture_pos > 0),
                           hint_f = hf, hint_r = hr, target_promo = pr\<rparr>))"

text \<open>
  \<open>clean_san\<close> is a buffer of 16 characters filled by \<open>strcpy\<close>, and its last character is
  read before anything else: the token must be non-empty and shorter than 16.
\<close>

definition decode_san :: "string \<Rightarrow> bool \<Rightarrow> error + decoded" where
  "decode_san san is_white =
     (if san = [] \<or> length san \<ge> 16 then Inl BufferOverrun
      else
        let clean_san = strip_check san
        in if clean_san = ''O-O'' \<or> clean_san = ''0-0'' then Inr (Castling (castle_move is_white 6))
           else if clean_san = ''O-O-O'' \<or> clean_san = ''0-0-0''
             then Inr (Castling (castle_move is_white 2))
           else
             let (pr, clean_san) = split_promo clean_san
             in decode_target clean_san pr is_white)"

definition is_candidate :: "Target \<Rightarrow> bool \<Rightarrow> board \<Rightarrow> int \<times> int \<Rightarrow> bool" where
  "is_candidate t is_white b sq =
     (case sq of (r, f) \<Rightarrow>
        b (r, f) = target_piece t
        \<and> \<not> ((hint_f t \<ge> 0 \<and> f \<noteq> hint_f t) \<or> (hint_r t \<ge> 0 \<and> r \<noteq> hint_r t))
        \<and> is_valid_move b (target_piece t) r f (target_r t) (target_f t) is_white (capture t))"

definition find_candidates :: "Target \<Rightarrow> bool \<Rightarrow> board \<Rightarrow> (int \<times> int) list" where
  "find_candidates t is_white b = filter (is_candidate t is_white b) all_squares"

definition move_from :: "Target \<Rightarrow> int \<times> int \<Rightarrow> Move" where
  "move_from t c =
     \<lparr>from_r = fst c, from_f = snd c, to_r = target_r t, to_f = target_f t,
      promo = target_promo t\<rparr>"

text \<open>
  The disambiguation loop.  Each round copies the board to \<open>temp_board\<close>, applies the
  trial move to the board itself, asks \<open>is_in_check\<close>, and copies \<open>temp_board\<close> back on
  both exits.
\<close>

fun try_candidates ::
  "Target \<Rightarrow> bool \<Rightarrow> (int \<times> int) list \<Rightarrow> board \<Rightarrow> error + (Move option \<times> board)" where
  "try_candidates t is_white [] b = Inr (None, b)"
| "try_candidates t is_white (c # cs) b =
     (let temp_board = b;
          temp_m = move_from t c
      in case apply_move temp_m is_white b of
           Inl e \<Rightarrow> Inl e
         | Inr b1 \<Rightarrow>
             if \<not> is_in_check b1 is_white then Inr (Some (move_from t c), temp_board)
             else try_candidates t is_white cs temp_board)"

text \<open>
  \<open>candidates\<close> has 16 entries: a seventeenth candidate would be written past its end.
\<close>

definition resolve :: "Target \<Rightarrow> bool \<Rightarrow> board \<Rightarrow> error + (Move option \<times> board)" where
  "resolve t is_white b =
     (let candidates = find_candidates t is_white b;
          num_candidates = length candidates
      in if num_candidates > 16 then Inl BufferOverrun
         else if num_candidates = 0 then Inr (None, b)
         else if num_candidates = 1 then Inr (Some (move_from t (candidates ! 0)), b)
         else try_candidates t is_white candidates b)"

definition parse_san :: "string \<Rightarrow> bool \<Rightarrow> board \<Rightarrow> error + (Move option \<times> board)" where
  "parse_san san is_white b =
     (case decode_san san is_white of
        Inl e \<Rightarrow> Inl e
      | Inr (Castling m) \<Rightarrow> Inr (Some m, b)
      | Inr NoMove \<Rightarrow> Inr (None, b)
      | Inr (Resolve t) \<Rightarrow> resolve t is_white b)"

section \<open>Movetext\<close>

text \<open>
  \<open>clean_line\<close> rewrites one line in place; \<open>clean_loop\<close> is its \<open>while\<close> loop, returning
  the characters written through \<open>out\<close>.  After a \<open>;\<close> the inner loop skips to the next
  newline, which is then read as any other character.
\<close>

function clean_loop :: "bool \<Rightarrow> bool \<Rightarrow> string \<Rightarrow> string" where
  "clean_loop in_comment in_var [] = []"
| "clean_loop in_comment in_var (c # line) =
     (if c = CHR ''{'' then clean_loop True in_var line
      else if c = CHR ''}'' then clean_loop False in_var line
      else if c = CHR ''('' then clean_loop in_comment True line
      else if c = CHR '')'' then clean_loop in_comment False line
      else if c = CHR '';'' then
        clean_loop in_comment in_var (dropWhile (\<lambda>x. x \<noteq> CHR 0x0A) (c # line))
      else if \<not> in_comment \<and> \<not> in_var then c # clean_loop in_comment in_var line
      else clean_loop in_comment in_var line)"
  by pat_completeness auto
termination
  by (relation "measure (\<lambda>(in_comment, in_var, line). length line)")
     (auto simp: length_dropWhile_le le_imp_less_Suc)

definition clean_line :: "string \<Rightarrow> string" where
  "clean_line line = clean_loop False False line"

text \<open>
  \<open>extract_san_token\<close> writes into \<open>out\<close>, a buffer of \<open>out_size\<close> characters
  (\<open>out_size\<close> is 32, the size of \<open>san_buf\<close>, at its call).
\<close>

definition extract_san_token :: "string \<Rightarrow> nat \<Rightarrow> string option" where
  "extract_san_token token out_size =
     (let p = (if token \<noteq> [] \<and> isdigit (hd token) then
                 (let q = dropWhile isdigit token
                  in if q \<noteq> [] \<and> hd q = CHR ''.'' then dropWhile (\<lambda>c. c = CHR ''.'') q
                     else token)
               else dropWhile (\<lambda>c. c = CHR ''.'') token)
      in if p = [] then None
         else
           let len = length (takeWhile (\<lambda>c. c \<noteq> CHR ''!'' \<and> c \<noteq> CHR ''?'') p)
           in if len = 0 then None
              else Some (take (if len \<ge> out_size then out_size - 1 else len) p))"

definition is_result_token :: "string \<Rightarrow> bool" where
  "is_result_token san =
     (san = ''1-0'' \<or> san = ''0-1'' \<or> san = ''1/2-1/2'' \<or> san = ''*'')"

definition is_delim :: "char \<Rightarrow> bool" where
  "is_delim c = (c = CHR '' '' \<or> c = CHR 0x09 \<or> c = CHR 0x0A \<or> c = CHR 0x0D)"

text \<open>The successive results of \<open>strtok(..., " \t\n\r")\<close> on a buffer.\<close>

function strtok_all :: "string \<Rightarrow> string list" where
  "strtok_all s =
     (let s1 = dropWhile is_delim s
      in if s1 = [] then []
         else takeWhile (\<lambda>c. \<not> is_delim c) s1 # strtok_all (dropWhile (\<lambda>c. \<not> is_delim c) s1))"
  by pat_completeness auto
termination
proof (relation "measure length")
  fix s s1 :: string
  assume s1: "s1 = dropWhile is_delim s" and ne: "s1 \<noteq> []"
  from ne obtain c cs where cs: "s1 = c # cs"
    by (cases s1) auto
  have "dropWhile is_delim s = c # cs"
    using s1 cs by simp
  then have "\<not> is_delim c"
    by (simp add: dropWhile_eq_Cons_conv)
  then have "length (dropWhile (\<lambda>c. \<not> is_delim c) s1) \<le> length cs"
    by (simp add: cs length_dropWhile_le)
  moreover have "length s1 \<le> length s"
    by (simp add: s1 length_dropWhile_le)
  ultimately show "(dropWhile (\<lambda>c. \<not> is_delim c) s1, s) \<in> measure length"
    by (simp add: cs)
qed simp

declare strtok_all.simps [simp del]

definition MOVE_TEXT_LEN :: nat where
  "MOVE_TEXT_LEN = 32"

text \<open>
  The token loop of \<open>build_move_list\<close>.  \<open>moves\<close> holds the \<open>count\<close> tokens stored so far;
  the second component of the result is the string left in \<open>result_out\<close>, a buffer of
  \<open>result_out_size\<close> characters.
\<close>

fun move_loop :: "string list \<Rightarrow> nat \<Rightarrow> nat \<Rightarrow> string list \<Rightarrow> string list \<times> string" where
  "move_loop [] max_moves result_out_size moves = (moves, [])"
| "move_loop (token # rest) max_moves result_out_size moves =
     (case extract_san_token token MOVE_TEXT_LEN of
        None \<Rightarrow> move_loop rest max_moves result_out_size moves
      | Some san_buf \<Rightarrow>
          if is_result_token san_buf then
            (moves, if result_out_size > 0 then take (result_out_size - 1) san_buf else [])
          else if length moves < max_moves then
            move_loop rest max_moves result_out_size (moves @ [take (MOVE_TEXT_LEN - 1) san_buf])
          else move_loop rest max_moves result_out_size moves)"

definition build_move_list :: "string \<Rightarrow> nat \<Rightarrow> nat \<Rightarrow> string list \<times> string" where
  "build_move_list move_buffer max_moves result_out_size =
     (let temp_buffer = take 65535 move_buffer
      in move_loop (strtok_all temp_buffer) max_moves result_out_size [])"


section \<open>Notions used in the statements\<close>

text \<open>
  The squares \<open>apply_move\<close> writes: origin and destination, the square one row behind the
  destination for a pawn shifting one file onto an empty square, and the two rook
  squares for a king shifting two files.
\<close>

definition touched :: "Move \<Rightarrow> bool \<Rightarrow> board \<Rightarrow> (int \<times> int) list" where
  "touched m is_white b =
     [(from_r m, from_f m), (to_r m, to_f m)]
     @ (if toupper (b (from_r m, from_f m)) = CHR ''P'' \<and> \<bar>from_f m - to_f m\<bar> = 1
           \<and> b (to_r m, to_f m) = CHR ''.''
        then [(to_r m - (if is_white then -1 else 1), to_f m)] else [])
     @ (if toupper (b (from_r m, from_f m)) = CHR ''K'' \<and> \<bar>from_f m - to_f m\<bar> = 2
        then [(from_r m, if to_f m > from_f m then 7 else 0),
              (from_r m, if to_f m > from_f m then 5 else 3)]
        else [])"

text \<open>
  The same list with the square of the pawn taken en passant given as (origin row,
  destination file).
\<close>

definition origin_row_frame :: "Move \<Rightarrow> board \<Rightarrow> (int \<times> int) list" where
  "origin_row_frame m b =
     [(from_r m, from_f m), (to_r m, to_f m)]
     @ (if toupper (b (from_r m, from_f m)) = CHR ''P'' \<and> \<bar>from_f m - to_f m\<bar> = 1
           \<and> b (to_r m, to_f m) = CHR ''.''
        then [(from_r m, to_f m)] else [])
     @ (if toupper (b (from_r m, from_f m)) = CHR ''K'' \<and> \<bar>from_f m - to_f m\<bar> = 2
        then [(from_r m, if to_f m > from_f m then 7 else 0),
              (from_r m, if to_f m > from_f m then 5 else 3)]
        else [])"

text \<open>A White pawn on e5 stepping diagonally backwards to d4, with a Black knight on d3.\<close>

definition backward_board :: board where
  "backward_board = board_of_rows
     [''........'',
      ''........'',
      ''........'',
      ''....P...'',
      ''........'',
      ''...n....'',
      ''........'',
      ''........'']"

definition backward_move :: Move where
  "backward_move = \<lparr>from_r = 3, from_f = 4, to_r = 4, to_f = 3, promo = CHR 0x00\<rparr>"

text \<open>
  Kings on their home squares, a White pawn on e5 and a Black pawn beside it on d5.
\<close>

definition ep_board :: board where
  "ep_board = board_of_rows
     [''....k...'',
      ''........'',
      ''........'',
      ''...pP...'',
      ''........'',
      ''........'',
      ''........'',
      ''....K...'']"

definition ep_move :: Move where
  "ep_move = \<lparr>from_r = 3, from_f = 4, to_r = 2, to_f = 3, promo = CHR 0x00\<rparr>"

text \<open>The initial position with White's king's bishop and knight gone.\<close>

definition castle_board :: board where
  "castle_board = board_of_rows
     [''rnbqkbnr'',
      ''pppppppp'',
      ''........'',
      ''........'',
      ''........'',
      ''........'',
      ''PPPPPPPP'',
      ''RNBQK..R'']"

text \<open>A lone White pawn on e7.\<close>

definition promotion_board :: board where
  "promotion_board = board_of_rows
     [''........'',
      ''....P...'',
      ''........'',
      ''........'',
      ''........'',
      ''........'',
      ''........'',
      ''........'']"

text \<open>The order in which the nested loops visit the squares.\<close>

definition sq_before :: "int \<times> int \<Rightarrow> int \<times> int \<Rightarrow> bool" where
  "sq_before p q = (fst p < fst q \<or> (fst p = fst q \<and> snd p < snd q))"

text \<open>
  Two positions with a Black rook on e8 and the White king on e1: in \<open>pinned_board\<close> a
  White knight on e2 shields the king, in \<open>rook_check_board\<close> that knight has gone to c3.
\<close>

definition pinned_board :: board where
  "pinned_board = board_of_rows
     [''....r..k'',
      ''........'',
      ''........'',
      ''........'',
      ''........'',
      ''........'',
      ''....N...'',
      ''.N..K...'']"

definition rook_check_board :: board where
  "rook_check_board = board_of_rows
     [''....r..k'',
      ''........'',
      ''........'',
      ''........'',
      ''........'',
      ''..N.....'',
      ''........'',
      ''.N..K...'']"

text \<open>
  Two squares on a common rank, file or diagonal, and the squares strictly between them:
  those on the segment joining the two, the end points left out.
\<close>

definition on_line :: "int \<Rightarrow> int \<Rightarrow> int \<Rightarrow> int \<Rightarrow> bool" where
  "on_line fr ff tr tf = (tr = fr \<or> tf = ff \<or> \<bar>tr - fr\<bar> = \<bar>tf - ff\<bar>)"

definition strictly_between :: "int \<times> int \<Rightarrow> int \<times> int \<Rightarrow> int \<times> int \<Rightarrow> bool" where
  "strictly_between a c sq =
     (sq \<noteq> a \<and> sq \<noteq> c
      \<and> (fst sq - fst a) * (snd c - snd a) = (snd sq - snd a) * (fst c - fst a)
      \<and> min (fst a) (fst c) \<le> fst sq \<and> fst sq \<le> max (fst a) (fst c)
      \<and> min (snd a) (snd c) \<le> snd sq \<and> snd sq \<le> max (snd a) (snd c))"

text \<open>
  The test of the disambiguation loop for a candidate origin \<open>c\<close>: the move from \<open>c\<close> is
  applied to the board and the mover's king is not in check on the result.
\<close>

definition king_safe_after :: "Target \<Rightarrow> bool \<Rightarrow> board \<Rightarrow> int \<times> int \<Rightarrow> bool" where
  "king_safe_after t is_white b c =
     (case apply_move (move_from t c) is_white b of
        Inl e \<Rightarrow> False
      | Inr b1 \<Rightarrow> \<not> is_in_check b1 is_white)"

text \<open>
  The White king on e1 in check from a rook on e8, with White knights on b1 and f1.
\<close>

definition unsafe_board :: board where
  "unsafe_board = board_of_rows
     [''....r..k'',
      ''........'',
      ''........'',
      ''........'',
      ''........'',
      ''........'',
      ''........'',
      ''.N..KN..'']"

section \<open>Basic facts\<close>

lemma toupper_letters [simp]:
  "toupper (CHR ''P'') = CHR ''P''" "toupper (CHR ''p'') = CHR ''P''"
  "toupper (CHR ''N'') = CHR ''N''" "toupper (CHR ''n'') = CHR ''N''"
  "toupper (CHR ''B'') = CHR ''B''" "toupper (CHR ''b'') = CHR ''B''"
  "toupper (CHR ''R'') = CHR ''R''" "toupper (CHR ''r'') = CHR ''R''"
  "toupper (CHR ''Q'') = CHR ''Q''" "toupper (CHR ''q'') = CHR ''Q''"
  "toupper (CHR ''K'') = CHR ''K''" "toupper (CHR ''k'') = CHR ''K''"
  "toupper (CHR ''.'') = CHR ''.''"
  by code_simp+

lemma tolower_letters [simp]:
  "tolower (CHR ''P'') = CHR ''p''" "tolower (CHR ''N'') = CHR ''n''"
  "tolower (CHR ''B'') = CHR ''b''" "tolower (CHR ''R'') = CHR ''r''"
  "tolower (CHR ''Q'') = CHR ''q''" "tolower (CHR ''K'') = CHR ''k''"
  by code_simp+

lemma is_white_piece_letters [simp]:
  "is_white_piece (CHR ''P'')" "\<not> is_white_piece (CHR ''p'')"
  "is_white_piece (CHR ''N'')" "\<not> is_white_piece (CHR ''n'')"
  "is_white_piece (CHR ''B'')" "\<not> is_white_piece (CHR ''b'')"
  "is_white_piece (CHR ''R'')" "\<not> is_white_piece (CHR ''r'')"
  "is_white_piece (CHR ''Q'')" "\<not> is_white_piece (CHR ''q'')"
  "is_white_piece (CHR ''K'')" "\<not> is_white_piece (CHR ''k'')"
  "\<not> is_white_piece (CHR ''.'')"
  by code_simp+

lemma sign_cases: "sign x = 1 \<or> sign x = 0 \<or> sign x = -1"
  by (simp add: sign_def)


lemma set_idx8: "set idx8 = {0..7}"
  unfolding idx8_def by auto

lemma all_squares_on_board: "sq \<in> set all_squares \<longleftrightarrow> on_board (fst sq) (snd sq)"
  by (cases sq) (auto simp: all_squares_def set_idx8 on_board_def)

lemma distinct_all_squares: "distinct all_squares"
  unfolding all_squares_def by (simp add: distinct_product idx8_def)

lemma filter_single:
  assumes "distinct xs" and "x \<in> set xs" and "P x"
    and "\<And>y. y \<in> set xs \<Longrightarrow> P y \<Longrightarrow> y = x"
  shows "filter P xs = [x]"
proof -
  have "filter P xs = filter (\<lambda>y. y = x) xs"
    using assms(3,4) by (intro filter_cong) auto
  also have "\<dots> = [x]"
    using assms(1,2) by (induction xs) (auto simp: filter_empty_conv)
  finally show ?thesis .
qed

section \<open>The validator, piece by piece\<close>

lemma is_valid_move_pawn_quiet:
  assumes "toupper piece = CHR ''P''"
  shows "is_valid_move b piece fr ff tr tf is_white False \<longleftrightarrow>
           tf = ff \<and> b (tr, tf) = CHR ''.''
           \<and> (tr - fr = (if is_white then -1 else 1)
              \<or> (tr - fr = 2 * (if is_white then -1 else 1)
                  \<and> fr = (if is_white then 6 else 1)
                  \<and> is_path_clear b fr ff tr tf))"
  unfolding is_valid_move_def Let_def using assms
  by (cases is_white) auto

lemma is_valid_move_pawn_capture:
  assumes "toupper piece = CHR ''P''"
  shows "is_valid_move b piece fr ff tr tf is_white True \<longleftrightarrow>
           \<bar>tf - ff\<bar> = 1 \<and> tr - fr = (if is_white then -1 else 1)
           \<and> ((b (tr, tf) \<noteq> CHR ''.'' \<and> is_white_piece (b (tr, tf)) \<noteq> is_white)
              \<or> (b (tr, tf) = CHR ''.'' \<and> fr = (if is_white then 3 else 4)
                  \<and> b (fr, tf) = (if is_white then CHR ''p'' else CHR ''P'')))"
  unfolding is_valid_move_def Let_def using assms
  by (cases is_white) auto

section \<open>Properties of the movetext functions\<close>

lemma clean_loop_no_markup:
  "set (clean_loop in_comment in_var line)
     \<inter> {CHR ''{'', CHR ''}'', CHR ''('', CHR '')'', CHR '';''} = {}"
  by (induction in_comment in_var line rule: clean_loop.induct) auto

lemma clean_loop_plain:
  "set line \<inter> {CHR ''{'', CHR ''}'', CHR ''('', CHR '')'', CHR '';''} = {}
   \<Longrightarrow> clean_loop False False line = line"
  by (induction line) auto

text \<open>
  C10.  Line cleaning is idempotent: the cleaned line contains none of the characters
  \<open>{\<close>, \<open>}\<close>, \<open>(\<close>, \<open>)\<close> and \<open>;\<close>, so cleaning it again returns it unchanged.
\<close>

theorem clean_line_idempotent:
  "CHR ''{'' \<notin> set (clean_line line) \<and> CHR ''}'' \<notin> set (clean_line line)
   \<and> CHR ''('' \<notin> set (clean_line line) \<and> CHR '')'' \<notin> set (clean_line line)
   \<and> CHR '';'' \<notin> set (clean_line line)
   \<and> clean_line (clean_line line) = clean_line line"
proof -
  have none: "set (clean_line line) \<inter> {CHR ''{'', CHR ''}'', CHR ''('', CHR '')'', CHR '';''} = {}"
    unfolding clean_line_def by (rule clean_loop_no_markup)
  then have "clean_line (clean_line line) = clean_line line"
    unfolding clean_line_def [of "clean_loop False False line"]
    unfolding clean_line_def by (rule clean_loop_plain)
  with none show ?thesis by auto
qed

theorem clean_line_idempotent_witness:
  "clean_line ''1. e4 {a (b)} e5 (1... c5) ; x'' = ''1. e4  e5  ''
   \<and> clean_line ''1. e4  e5  '' = ''1. e4  e5  ''"
  using clean_line_idempotent [of "''1. e4 {a (b)} e5 (1... c5) ; x''"]
  by (simp add: clean_line_def)

section \<open>Applying a move\<close>

text \<open>
  \<open>apply_move\<close> stays inside the array when origin and destination are on the board and,
  for a pawn stepping one file onto an empty square, the row behind the destination is.
\<close>

lemma apply_move_defined:
  assumes "on_board (from_r m) (from_f m)" and "on_board (to_r m) (to_f m)"
    and "toupper (b (from_r m, from_f m)) = CHR ''P'' \<and> \<bar>from_f m - to_f m\<bar> = 1
         \<and> b (to_r m, to_f m) = CHR ''.''
         \<Longrightarrow> on_board (to_r m - (if is_white then -1 else 1)) (to_f m)"
  shows "\<exists>b'. apply_move m is_white b = Inr b'"
  using assms by (auto simp: apply_move_def Let_def)

text \<open>
  The two lists agree unless a pawn steps one file onto an empty square without
  advancing one row in the mover's direction.
\<close>

lemma touched_origin_row:
  assumes "toupper (b (from_r m, from_f m)) = CHR ''P'' \<and> \<bar>from_f m - to_f m\<bar> = 1
           \<and> b (to_r m, to_f m) = CHR ''.''
           \<Longrightarrow> to_r m - from_r m = (if is_white then -1 else 1)"
  shows "touched m is_white b = origin_row_frame m b"
proof (cases "toupper (b (from_r m, from_f m)) = CHR ''P'' \<and> \<bar>from_f m - to_f m\<bar> = 1
              \<and> b (to_r m, to_f m) = CHR ''.''")
  case True
  from assms [OF True] have "to_r m - (if is_white then -1 else 1) = from_r m"
    by (simp split: if_splits)
  then show ?thesis
    unfolding touched_def origin_row_frame_def by simp
next
  case False
  then show ?thesis
    unfolding touched_def origin_row_frame_def by (simp only: if_False)
qed

text \<open>
  Whatever the move, \<open>apply_move\<close> changes no square outside \<open>touched\<close>.
\<close>

lemma apply_move_touched:
  assumes "apply_move m is_white b = Inr b'" and "sq \<notin> set (touched m is_white b)"
  shows "b' sq = b sq"
proof -
  define ep where "ep = (toupper (b (from_r m, from_f m)) = CHR ''P''
      \<and> \<bar>from_f m - to_f m\<bar> = 1 \<and> b (to_r m, to_f m) = CHR ''.'')"
  define castle where "castle = (toupper (b (from_r m, from_f m)) = CHR ''K''
      \<and> \<bar>from_f m - to_f m\<bar> = 2)"
  have sq: "sq \<noteq> (from_r m, from_f m)" "sq \<noteq> (to_r m, to_f m)"
    "ep \<Longrightarrow> sq \<noteq> (to_r m - (if is_white then -1 else 1), to_f m)"
    "castle \<Longrightarrow> sq \<noteq> (from_r m, if to_f m > from_f m then 7 else 0)"
    "castle \<Longrightarrow> sq \<noteq> (from_r m, if to_f m > from_f m then 5 else 3)"
    using assms(2) by (auto simp: touched_def ep_def castle_def)
  show ?thesis
    using assms(1) sq
    unfolding apply_move_def Let_def ep_def [symmetric] castle_def [symmetric]
    by (cases ep; cases castle) (auto split: if_splits)
qed

text \<open>
  \<open>apply_move\<close> does not check the move it is given.  Handed the White pawn of
  \<open>backward_board\<close> stepping from (3,4) back to (4,3), a step the validator never accepts,
  it clears (5,3), the square one row behind the destination as White moves.
\<close>

lemma apply_move_unchecked_pawn:
  "(5, 3) \<notin> set (origin_row_frame backward_move backward_board)
   \<and> \<not> is_valid_move backward_board (CHR ''P'') 3 4 4 3 True True
   \<and> (case apply_move backward_move True backward_board of
        Inl e \<Rightarrow> False
      | Inr b' \<Rightarrow> b' (5, 3) = CHR ''.'' \<and> backward_board (5, 3) = CHR ''n'')"
  by code_simp

text \<open>
  C3.  With a White pawn on (3,4), a Black pawn beside it on (3,3) and the square (2,3)
  empty, the validator accepts the pawn's diagonal step to (2,3) as a capture onto an
  empty square, and applying the move removes the Black pawn from (3,3).
\<close>

theorem en_passant_accepted_and_applied:
  assumes "b (3, 4) = CHR ''P''" and "b (3, 3) = CHR ''p''" and "b (2, 3) = CHR ''.''"
  shows "is_valid_move b (CHR ''P'') 3 4 2 3 True True
         \<and> (\<exists>b'. apply_move \<lparr>from_r = 3, from_f = 4, to_r = 2, to_f = 3, promo = CHR 0x00\<rparr>
                     True b = Inr b'
                 \<and> b' (3, 3) = CHR ''.'' \<and> b' (2, 3) = CHR ''P'' \<and> b' (3, 4) = CHR ''.'')"
  using assms
  by (simp add: is_valid_move_pawn_capture apply_move_def on_board_def Let_def)

theorem en_passant_witness:
  "is_valid_move ep_board (CHR ''P'') 3 4 2 3 True True
   \<and> (case apply_move ep_move True ep_board of
         Inl e \<Rightarrow> False
       | Inr b' \<Rightarrow> ep_board (3, 3) = CHR ''p'' \<and> b' (3, 3) = CHR ''.'' \<and> b' (2, 3) = CHR ''P'')"
proof -
  have h: "ep_board (3, 4) = CHR ''P''" "ep_board (3, 3) = CHR ''p''"
    "ep_board (2, 3) = CHR ''.''"
    by code_simp+
  show ?thesis
    using en_passant_accepted_and_applied [OF h] h by (auto simp: ep_move_def)
qed

section \<open>Tokens resolved without ambiguity\<close>

lemma parse_san_no_candidate:
  assumes "decode_san san is_white = Inr (Resolve t)" and "find_candidates t is_white b = []"
  shows "parse_san san is_white b = Inr (None, b)"
  using assms by (simp add: parse_san_def resolve_def)

lemma parse_san_one_candidate:
  assumes "decode_san san is_white = Inr (Resolve t)" and "find_candidates t is_white b = [c]"
  shows "parse_san san is_white b = Inr (Some (move_from t c), b)"
  using assms by (simp add: parse_san_def resolve_def)

lemma decode_san_castling:
  "decode_san ''O-O'' is_white = Inr (Castling (castle_move is_white 6))"
  "decode_san ''0-0'' is_white = Inr (Castling (castle_move is_white 6))"
  "decode_san ''O-O-O'' is_white = Inr (Castling (castle_move is_white 2))"
  "decode_san ''0-0-0'' is_white = Inr (Castling (castle_move is_white 2))"
  by (simp_all add: decode_san_def strip_check_def)

text \<open>
  C4.  On every board and for either side, \<open>O-O\<close> and \<open>0-0\<close> parse to the king move from
  file 4 to file 6 on the mover's home rank (row 7 for White, row 0 for Black), and
  \<open>O-O-O\<close> and \<open>0-0-0\<close> to the king move from file 4 to file 2; the board plays no part
  and is left as it was.  For White, \<open>O-O\<close> is the move (7,4) to (7,6), and applying it
  with the king on (7,4) also puts a rook on (7,5) and empties (7,7).
\<close>

theorem castling_tokens:
  "parse_san ''O-O'' is_white b
     = Inr (Some \<lparr>from_r = (if is_white then 7 else 0), from_f = 4,
                  to_r = (if is_white then 7 else 0), to_f = 6, promo = CHR 0x00\<rparr>, b)
   \<and> parse_san ''0-0'' is_white b
     = Inr (Some \<lparr>from_r = (if is_white then 7 else 0), from_f = 4,
                  to_r = (if is_white then 7 else 0), to_f = 6, promo = CHR 0x00\<rparr>, b)
   \<and> parse_san ''O-O-O'' is_white b
     = Inr (Some \<lparr>from_r = (if is_white then 7 else 0), from_f = 4,
                  to_r = (if is_white then 7 else 0), to_f = 2, promo = CHR 0x00\<rparr>, b)
   \<and> parse_san ''0-0-0'' is_white b
     = Inr (Some \<lparr>from_r = (if is_white then 7 else 0), from_f = 4,
                  to_r = (if is_white then 7 else 0), to_f = 2, promo = CHR 0x00\<rparr>, b)
   \<and> parse_san ''O-O'' True b
     = Inr (Some \<lparr>from_r = 7, from_f = 4, to_r = 7, to_f = 6, promo = CHR 0x00\<rparr>, b)
   \<and> (b (7, 4) = CHR ''K'' \<longrightarrow>
        (\<exists>b'. apply_move \<lparr>from_r = 7, from_f = 4, to_r = 7, to_f = 6, promo = CHR 0x00\<rparr> True b
                = Inr b'
              \<and> b' (7, 4) = CHR ''.'' \<and> b' (7, 6) = CHR ''K''
              \<and> b' (7, 7) = CHR ''.'' \<and> b' (7, 5) = CHR ''R''))"
proof -
  have a: "b (7, 4) = CHR ''K'' \<Longrightarrow>
        (\<exists>b'. apply_move \<lparr>from_r = 7, from_f = 4, to_r = 7, to_f = 6, promo = CHR 0x00\<rparr> True b
                = Inr b'
              \<and> b' (7, 4) = CHR ''.'' \<and> b' (7, 6) = CHR ''K''
              \<and> b' (7, 7) = CHR ''.'' \<and> b' (7, 5) = CHR ''R'')"
    by (simp add: apply_move_def on_board_def Let_def)
  show ?thesis
    using a by (simp add: parse_san_def decode_san_castling castle_move_def del: ex_simps)
qed

theorem castling_tokens_witness:
  "parse_san ''O-O'' True castle_board
     = Inr (Some \<lparr>from_r = 7, from_f = 4, to_r = 7, to_f = 6, promo = CHR 0x00\<rparr>, castle_board)
   \<and> parse_san ''0-0-0'' False castle_board
     = Inr (Some \<lparr>from_r = 0, from_f = 4, to_r = 0, to_f = 2, promo = CHR 0x00\<rparr>, castle_board)
   \<and> castle_board (7, 7) = CHR ''R'' \<and> castle_board (7, 5) = CHR ''.''
   \<and> (case apply_move \<lparr>from_r = 7, from_f = 4, to_r = 7, to_f = 6, promo = CHR 0x00\<rparr> True
              castle_board of
         Inl e \<Rightarrow> False
       | Inr b' \<Rightarrow> b' (7, 4) = CHR ''.'' \<and> b' (7, 6) = CHR ''K''
                  \<and> b' (7, 7) = CHR ''.'' \<and> b' (7, 5) = CHR ''R'')"
proof -
  have h: "castle_board (7, 4) = CHR ''K''" "castle_board (7, 7) = CHR ''R''"
    "castle_board (7, 5) = CHR ''.''"
    by code_simp+
  have c: "parse_san ''O-O'' True castle_board
     = Inr (Some \<lparr>from_r = 7, from_f = 4, to_r = 7, to_f = 6, promo = CHR 0x00\<rparr>, castle_board)"
    "parse_san ''0-0-0'' False castle_board
     = Inr (Some \<lparr>from_r = 0, from_f = 4, to_r = 0, to_f = 2, promo = CHR 0x00\<rparr>, castle_board)"
    using castling_tokens [of True castle_board] castling_tokens [of False castle_board]
    by simp_all
  from castling_tokens [of True castle_board] h(1) obtain b' where
    "apply_move \<lparr>from_r = 7, from_f = 4, to_r = 7, to_f = 6, promo = CHR 0x00\<rparr> True
       castle_board = Inr b'"
    and "b' (7, 4) = CHR ''.''" and "b' (7, 6) = CHR ''K''"
    and "b' (7, 7) = CHR ''.''" and "b' (7, 5) = CHR ''R''"
    by blast
  with c h show ?thesis by simp
qed

lemma decode_san_e8Q:
  "decode_san ''e8=Q'' True
     = Inr (Resolve \<lparr>target_piece = CHR ''P'', target_r = 0, target_f = 4, capture = False,
                      hint_f = -1, hint_r = -1, target_promo = CHR ''Q''\<rparr>)"
  by code_simp

text \<open>
  C5.  On a board with a White pawn on e7, square (1,4), and e8, square (0,4), empty,
  \<open>parse_san\<close> resolves \<open>e8=Q\<close> for White to the move from (1,4) to (0,4) with promotion
  field \<open>Q\<close>, and applying that move puts a White queen on e8 and empties e7.
\<close>

theorem promotion_e8Q:
  assumes "b (1, 4) = CHR ''P''" and "b (0, 4) = CHR ''.''"
  shows "parse_san ''e8=Q'' True b
           = Inr (Some \<lparr>from_r = 1, from_f = 4, to_r = 0, to_f = 4, promo = CHR ''Q''\<rparr>, b)
         \<and> (\<exists>b'. apply_move \<lparr>from_r = 1, from_f = 4, to_r = 0, to_f = 4, promo = CHR ''Q''\<rparr>
                     True b = Inr b'
                 \<and> b' (0, 4) = CHR ''Q'' \<and> b' (1, 4) = CHR ''.'')"
proof -
  let ?t = "\<lparr>target_piece = CHR ''P'', target_r = 0, target_f = 4, capture = False,
             hint_f = -1, hint_r = -1, target_promo = CHR ''Q''\<rparr>"
  have "find_candidates ?t True b = [(1, 4)]"
    unfolding find_candidates_def
  proof (rule filter_single [OF distinct_all_squares])
    show "(1, 4) \<in> set all_squares"
      by (simp add: all_squares_on_board on_board_def)
    show "is_candidate ?t True b (1, 4)"
      using assms by (simp add: is_candidate_def is_valid_move_pawn_quiet)
    show "y = (1, 4)" if "y \<in> set all_squares" and "is_candidate ?t True b y" for y
    proof -
      obtain r f where y: "y = (r, f)" by (cases y)
      have "is_valid_move b (CHR ''P'') r f 0 4 True False"
        using that(2) by (simp add: y is_candidate_def)
      then have "f = 4 \<and> r = 1"
        by (auto simp: is_valid_move_pawn_quiet)
      then show ?thesis by (simp add: y)
    qed
  qed
  from parse_san_one_candidate [OF decode_san_e8Q this]
  have p: "parse_san ''e8=Q'' True b
           = Inr (Some \<lparr>from_r = 1, from_f = 4, to_r = 0, to_f = 4, promo = CHR ''Q''\<rparr>, b)"
    by (simp add: move_from_def)
  have a: "\<exists>b'. apply_move \<lparr>from_r = 1, from_f = 4, to_r = 0, to_f = 4, promo = CHR ''Q''\<rparr>
                   True b = Inr b'
                 \<and> b' (0, 4) = CHR ''Q'' \<and> b' (1, 4) = CHR ''.''"
    using assms by (simp add: apply_move_def on_board_def Let_def)
  show ?thesis
    by (rule conjI [OF p a])
qed

theorem promotion_e8Q_witness:
  "parse_san ''e8=Q'' True promotion_board
           = Inr (Some \<lparr>from_r = 1, from_f = 4, to_r = 0, to_f = 4, promo = CHR ''Q''\<rparr>,
                  promotion_board)
   \<and> (case apply_move \<lparr>from_r = 1, from_f = 4, to_r = 0, to_f = 4, promo = CHR ''Q''\<rparr> True
              promotion_board of
         Inl e \<Rightarrow> False
       | Inr b' \<Rightarrow> b' (0, 4) = CHR ''Q'' \<and> b' (1, 4) = CHR ''.'')"
proof -
  have h: "promotion_board (1, 4) = CHR ''P''" "promotion_board (0, 4) = CHR ''.''"
    by code_simp+
  from promotion_e8Q [OF h] obtain b' where
    "parse_san ''e8=Q'' True promotion_board
       = Inr (Some \<lparr>from_r = 1, from_f = 4, to_r = 0, to_f = 4, promo = CHR ''Q''\<rparr>,
              promotion_board)"
    and "apply_move \<lparr>from_r = 1, from_f = 4, to_r = 0, to_f = 4, promo = CHR ''Q''\<rparr> True
              promotion_board = Inr b'"
    and "b' (0, 4) = CHR ''Q''" and "b' (1, 4) = CHR ''.''"
    by blast
  then show ?thesis by simp
qed

section \<open>Properties of check detection\<close>

lemma sorted_wrt_product:
  assumes "sorted_wrt (<) xs" and "sorted_wrt (<) ys"
  shows "sorted_wrt sq_before (List.product xs ys)"
  using assms(1)
proof (induction xs)
  case Nil
  then show ?case by simp
next
  case (Cons x xs)
  have "sorted_wrt sq_before (map (Pair x) ys)"
    using assms(2) by (simp add: sorted_wrt_map sq_before_def)
  moreover have "sorted_wrt sq_before (List.product xs ys)"
    using Cons by simp
  moreover have "sq_before p q"
    if "p \<in> set (map (Pair x) ys)" and "q \<in> set (List.product xs ys)" for p q
    using that Cons.prems by (auto simp: sq_before_def)
  ultimately show ?case
    by (simp add: sorted_wrt_append)
qed

lemma sorted_all_squares: "sorted_wrt sq_before all_squares"
  unfolding all_squares_def by (rule sorted_wrt_product) (simp_all add: idx8_def)

lemma find_first:
  assumes "sorted_wrt R xs" and "x \<in> set xs" and "P x"
    and "\<And>y. y \<in> set xs \<Longrightarrow> P y \<Longrightarrow> y = x \<or> R x y"
    and "\<And>y. R x y \<Longrightarrow> R y x \<Longrightarrow> False"
  shows "find P xs = Some x"
  using assms(1,2,4)
proof (induction xs)
  case Nil
  then show ?case by simp
next
  case (Cons a xs)
  show ?case
  proof (cases "a = x")
    case True
    with assms(3) show ?thesis by simp
  next
    case False
    with Cons.prems(2) have x: "x \<in> set xs" by simp
    with Cons.prems(1) have "R a x" by simp
    have "\<not> P a"
    proof
      assume "P a"
      with Cons.prems(3) [of a] False have "R x a" by auto
      with \<open>R a x\<close> assms(5) show False by blast
    qed
    moreover have "find P xs = Some x"
      using Cons.IH Cons.prems(1,3) x by simp
    ultimately show ?thesis by simp
  qed
qed

lemma find_king_None:
  "find_king b king = None \<longleftrightarrow> (\<forall>r f. on_board r f \<longrightarrow> b (r, f) \<noteq> king)"
  by (auto simp: find_king_def find_None_iff all_squares_on_board)

lemma find_king_first:
  assumes "on_board kr kf" and "b (kr, kf) = king"
    and "\<And>r f. on_board r f \<Longrightarrow> b (r, f) = king \<Longrightarrow> kr < r \<or> (kr = r \<and> kf \<le> f)"
  shows "find_king b king = Some (kr, kf)"
  unfolding find_king_def
proof (rule find_first [where R = sq_before, OF sorted_all_squares])
  show "(kr, kf) \<in> set all_squares"
    using assms(1) by (simp add: all_squares_on_board)
  show "b (kr, kf) = king" by fact
  show "y = (kr, kf) \<or> sq_before (kr, kf) y" if "y \<in> set all_squares" and "b y = king" for y
    using assms(3) [of "fst y" "snd y"] that
    by (cases y) (auto simp: all_squares_on_board sq_before_def)
  show False if "sq_before (kr, kf) y" and "sq_before y (kr, kf)" for y
    using that by (auto simp: sq_before_def)
qed

lemma list_ex_all_squares:
  "list_ex P all_squares \<longleftrightarrow> (\<exists>r f. on_board r f \<and> P (r, f))"
  unfolding list_ex_iff by (force simp: all_squares_on_board)

lemma list_all_all_squares:
  "list_all P all_squares \<longleftrightarrow> (\<forall>r f. on_board r f \<longrightarrow> P (r, f))"
  unfolding list_all_iff by (force simp: all_squares_on_board)

text \<open>
  C8.  If no square of the board holds the king of the queried colour, \<open>is_in_check\<close>
  answers False.  If the king is present, (kr, kf) being the first square in scan order
  that holds it, \<open>is_in_check\<close> answers True exactly when some square of the board holds
  a piece of the other colour for which the validator accepts the capture move onto
  (kr, kf).
\<close>

theorem is_in_check_spec:
  "((\<forall>r f. on_board r f \<longrightarrow> b (r, f) \<noteq> (if is_white then CHR ''K'' else CHR ''k''))
      \<longrightarrow> \<not> is_in_check b is_white)
   \<and> (\<forall>kr kf.
        on_board kr kf \<and> b (kr, kf) = (if is_white then CHR ''K'' else CHR ''k'')
        \<and> (\<forall>r f. on_board r f \<and> b (r, f) = (if is_white then CHR ''K'' else CHR ''k'')
                  \<longrightarrow> kr < r \<or> (kr = r \<and> kf \<le> f))
        \<longrightarrow> (is_in_check b is_white \<longleftrightarrow>
               (\<exists>r f. on_board r f \<and> b (r, f) \<noteq> CHR ''.''
                      \<and> is_white_piece (b (r, f)) \<noteq> is_white
                      \<and> is_valid_move b (b (r, f)) r f kr kf (\<not> is_white) True)))"
proof (intro conjI impI allI)
  assume "\<forall>r f. on_board r f \<longrightarrow> b (r, f) \<noteq> (if is_white then CHR ''K'' else CHR ''k'')"
  then have "find_king b (if is_white then CHR ''K'' else CHR ''k'') = None"
    by (simp add: find_king_None)
  then show "\<not> is_in_check b is_white"
    by (simp add: is_in_check_def)
next
  fix kr kf
  assume k: "on_board kr kf \<and> b (kr, kf) = (if is_white then CHR ''K'' else CHR ''k'')
        \<and> (\<forall>r f. on_board r f \<and> b (r, f) = (if is_white then CHR ''K'' else CHR ''k'')
                  \<longrightarrow> kr < r \<or> (kr = r \<and> kf \<le> f))"
  then have "find_king b (if is_white then CHR ''K'' else CHR ''k'') = Some (kr, kf)"
    by (intro find_king_first) auto
  then show "is_in_check b is_white \<longleftrightarrow>
               (\<exists>r f. on_board r f \<and> b (r, f) \<noteq> CHR ''.''
                      \<and> is_white_piece (b (r, f)) \<noteq> is_white
                      \<and> is_valid_move b (b (r, f)) r f kr kf (\<not> is_white) True)"
    by (simp add: is_in_check_def list_ex_all_squares attacks_def Let_def) blast
qed

theorem is_in_check_spec_witness:
  "\<not> is_in_check promotion_board True \<and> is_in_check rook_check_board True
   \<and> \<not> is_in_check pinned_board True"
proof -
  have "list_all (\<lambda>sq. promotion_board sq \<noteq> CHR ''K'') all_squares"
    by code_simp
  then have 1: "\<not> is_in_check promotion_board True"
    using is_in_check_spec [of promotion_board True] by (simp add: list_all_all_squares)
  have o: "on_board 7 4" "on_board 0 4"
    by (simp_all add: on_board_def)
  have "list_all (\<lambda>sq. rook_check_board sq = CHR ''K'' \<longrightarrow> sq = (7, 4)) all_squares"
    by code_simp
  then have "\<forall>r f. on_board r f \<and> rook_check_board (r, f) = CHR ''K''
               \<longrightarrow> 7 < r \<or> (7 = r \<and> 4 \<le> f)"
    unfolding list_all_all_squares by fastforce
  moreover have "rook_check_board (7, 4) = CHR ''K''"
    by code_simp
  ultimately have "is_in_check rook_check_board True \<longleftrightarrow>
      (\<exists>r f. on_board r f \<and> rook_check_board (r, f) \<noteq> CHR ''.''
             \<and> is_white_piece (rook_check_board (r, f)) \<noteq> True
             \<and> is_valid_move rook_check_board (rook_check_board (r, f)) r f 7 4 (\<not> True) True)"
    using is_in_check_spec [of rook_check_board True, THEN conjunct2, rule_format, of 7 4] o(1)
    by simp
  moreover have "rook_check_board (0, 4) = CHR ''r''"
    "is_valid_move rook_check_board (CHR ''r'') 0 4 7 4 False True"
    by code_simp+
  then have "on_board 0 4 \<and> rook_check_board (0, 4) \<noteq> CHR ''.''
             \<and> is_white_piece (rook_check_board (0, 4)) \<noteq> True
             \<and> is_valid_move rook_check_board (rook_check_board (0, 4)) 0 4 7 4 (\<not> True) True"
    using o(2) by simp
  ultimately have 2: "is_in_check rook_check_board True"
    by blast
  have "list_all (\<lambda>sq. pinned_board sq = CHR ''K'' \<longrightarrow> sq = (7, 4)) all_squares"
    by code_simp
  then have "\<forall>r f. on_board r f \<and> pinned_board (r, f) = CHR ''K''
               \<longrightarrow> 7 < r \<or> (7 = r \<and> 4 \<le> f)"
    unfolding list_all_all_squares by fastforce
  moreover have "pinned_board (7, 4) = CHR ''K''"
    by code_simp
  ultimately have "is_in_check pinned_board True \<longleftrightarrow>
      (\<exists>r f. on_board r f \<and> pinned_board (r, f) \<noteq> CHR ''.''
             \<and> is_white_piece (pinned_board (r, f)) \<noteq> True
             \<and> is_valid_move pinned_board (pinned_board (r, f)) r f 7 4 (\<not> True) True)"
    using is_in_check_spec [of pinned_board True, THEN conjunct2, rule_format, of 7 4] o(1)
    by simp
  moreover have "list_all (\<lambda>sq. \<not> (pinned_board sq \<noteq> CHR ''.''
          \<and> is_white_piece (pinned_board sq) \<noteq> True
          \<and> is_valid_move pinned_board (pinned_board sq) (fst sq) (snd sq) 7 4 (\<not> True) True))
        all_squares"
    by code_simp
  ultimately have 3: "\<not> is_in_check pinned_board True"
    by (simp add: list_all_all_squares)
  from 1 2 3 show ?thesis by simp
qed

section \<open>Sliding pieces and the squares in between\<close>

lemma path_loop_iff:
  "path_loop b fr ff dr df steps i \<longleftrightarrow>
     (\<forall>k. i \<le> k \<and> k < steps \<longrightarrow> b (fr + k * dr, ff + k * df) = CHR ''.'')"
proof (induction b fr ff dr df steps i rule: path_loop.induct)
  case (1 b fr ff dr df steps i)
  show ?case
  proof (cases "i < steps")
    case False
    then show ?thesis by (auto simp: path_loop.simps [of b fr ff dr df steps i])
  next
    case True
    show ?thesis
    proof (cases "b (fr + i * dr, ff + i * df) = CHR ''.''")
      case False
      with True show ?thesis
        by (auto simp: path_loop.simps [of b fr ff dr df steps i])
    next
      case empty: True
      have "path_loop b fr ff dr df steps i = path_loop b fr ff dr df steps (i + 1)"
        using True empty by (simp add: path_loop.simps [of b fr ff dr df steps i])
      also have "\<dots> \<longleftrightarrow> (\<forall>k. i + 1 \<le> k \<and> k < steps \<longrightarrow> b (fr + k * dr, ff + k * df) = CHR ''.'')"
        using 1 True empty by simp
      also have "\<dots> \<longleftrightarrow> (\<forall>k. i \<le> k \<and> k < steps \<longrightarrow> b (fr + k * dr, ff + k * df) = CHR ''.'')"
      proof (intro iffI allI impI)
        fix k
        assume a: "\<forall>k. i + 1 \<le> k \<and> k < steps \<longrightarrow> b (fr + k * dr, ff + k * df) = CHR ''.''"
          and k: "i \<le> k \<and> k < steps"
        show "b (fr + k * dr, ff + k * df) = CHR ''.''"
        proof (cases "k = i")
          case True
          with empty show ?thesis by simp
        next
          case False
          with k have "i + 1 \<le> k \<and> k < steps" by simp
          with a show ?thesis by blast
        qed
      next
        fix k
        assume a: "\<forall>k. i \<le> k \<and> k < steps \<longrightarrow> b (fr + k * dr, ff + k * df) = CHR ''.''"
          and k: "i + 1 \<le> k \<and> k < steps"
        then have "i \<le> k \<and> k < steps" by simp
        with a show "b (fr + k * dr, ff + k * df) = CHR ''.''" by blast
      qed
      finally show ?thesis .
    qed
  qed
qed

lemma is_path_clear_iff:
  "is_path_clear b fr ff tr tf \<longleftrightarrow>
     (\<forall>k. 1 \<le> k \<and> k < (if sign (tr - fr) = 0 then \<bar>tf - ff\<bar> else \<bar>tr - fr\<bar>)
        \<longrightarrow> b (fr + k * sign (tr - fr), ff + k * sign (tf - ff)) = CHR ''.'')"
  by (simp add: is_path_clear_def Let_def path_loop_iff)

lemma line_cases:
  fixes dr df :: int
  assumes "dr = 0 \<or> df = 0 \<or> \<bar>dr\<bar> = \<bar>df\<bar>"
  obtains (zz) "dr = 0" "df = 0" | (zp) "dr = 0" "df > 0" | (zn) "dr = 0" "df < 0"
    | (pz) "dr > 0" "df = 0" | (nz) "dr < 0" "df = 0"
    | (pp) "dr > 0" "df = dr" | (pn) "dr > 0" "df = - dr"
    | (np) "dr < 0" "df = - dr" | (nn) "dr < 0" "df = dr"
proof -
  have "dr < 0 \<or> dr = 0 \<or> dr > 0" "df < 0 \<or> df = 0 \<or> df > 0"
    by auto
  moreover have "\<bar>dr\<bar> = \<bar>df\<bar> \<Longrightarrow> df = dr \<or> df = - dr"
    by (simp add: abs_if split: if_splits)
  ultimately show thesis
    using assms that by (elim disjE) auto
qed


lemma between_offsets:
  fixes dr df x y :: int
  assumes "dr = 0 \<or> df = 0 \<or> \<bar>dr\<bar> = \<bar>df\<bar>"
  shows "((x, y) \<noteq> (0, 0) \<and> (x, y) \<noteq> (dr, df) \<and> x * df = y * dr
          \<and> min 0 dr \<le> x \<and> x \<le> max 0 dr \<and> min 0 df \<le> y \<and> y \<le> max 0 df)
         \<longleftrightarrow> (\<exists>k. 1 \<le> k \<and> k < (if sign dr = 0 then \<bar>df\<bar> else \<bar>dr\<bar>)
                  \<and> x = k * sign dr \<and> y = k * sign df)"
    (is "?L \<longleftrightarrow> ?R")
  using assms
proof (cases rule: line_cases)
  case zz
  then show ?thesis by (simp add: sign_def) linarith
next
  case zp
  then have "?L \<longleftrightarrow> x = 0 \<and> 1 \<le> y \<and> y < df" by auto
  moreover from zp have "?R \<longleftrightarrow> x = 0 \<and> 1 \<le> y \<and> y < df" by (auto simp: sign_def)
  ultimately show ?thesis by simp
next
  case zn
  then have "?L \<longleftrightarrow> x = 0 \<and> 1 \<le> - y \<and> - y < - df" by auto
  moreover from zn have "?R \<longleftrightarrow> (\<exists>k. 1 \<le> k \<and> k < - df \<and> x = 0 \<and> y = - k)"
    by (simp add: sign_def)
  moreover have "(\<exists>k. 1 \<le> k \<and> k < - df \<and> x = 0 \<and> y = - k) \<longleftrightarrow> x = 0 \<and> 1 \<le> - y \<and> - y < - df"
    by (auto intro: exI [of _ "- y"])
  ultimately show ?thesis by simp
next
  case pz
  then have "?L \<longleftrightarrow> y = 0 \<and> 1 \<le> x \<and> x < dr" by auto
  moreover from pz have "?R \<longleftrightarrow> y = 0 \<and> 1 \<le> x \<and> x < dr" by (auto simp: sign_def)
  ultimately show ?thesis by simp
next
  case nz
  then have "?L \<longleftrightarrow> y = 0 \<and> 1 \<le> - x \<and> - x < - dr" by auto
  moreover from nz have "?R \<longleftrightarrow> (\<exists>k. 1 \<le> k \<and> k < - dr \<and> x = - k \<and> y = 0)"
    by (simp add: sign_def)
  moreover have "(\<exists>k. 1 \<le> k \<and> k < - dr \<and> x = - k \<and> y = 0) \<longleftrightarrow> y = 0 \<and> 1 \<le> - x \<and> - x < - dr"
    by (auto intro: exI [of _ "- x"])
  ultimately show ?thesis by simp
next
  case pp
  then have "x * df = y * dr \<longleftrightarrow> y = x" by auto
  with pp have "?L \<longleftrightarrow> y = x \<and> 1 \<le> x \<and> x < dr" by auto
  moreover from pp have "?R \<longleftrightarrow> y = x \<and> 1 \<le> x \<and> x < dr" by (auto simp: sign_def)
  ultimately show ?thesis by simp
next
  case pn
  have "x * df = y * dr \<longleftrightarrow> y = - x"
  proof -
    have "x * df = (- x) * dr" using pn by simp
    moreover have "(- x) * dr = y * dr \<longleftrightarrow> - x = y"
      using pn by (simp only: mult_cancel_right) simp
    ultimately show ?thesis by (simp only:) auto
  qed
  with pn have "?L \<longleftrightarrow> y = - x \<and> 1 \<le> x \<and> x < dr" by auto
  moreover from pn have "?R \<longleftrightarrow> y = - x \<and> 1 \<le> x \<and> x < dr" by (auto simp: sign_def)
  ultimately show ?thesis by simp
next
  case np
  have "x * df = y * dr \<longleftrightarrow> y = - x"
  proof -
    have "x * df = (- x) * dr" using np by simp
    moreover have "(- x) * dr = y * dr \<longleftrightarrow> - x = y"
      using np by (simp only: mult_cancel_right) simp
    ultimately show ?thesis by (simp only:) auto
  qed
  with np have "?L \<longleftrightarrow> y = - x \<and> 1 \<le> - x \<and> - x < - dr" by auto
  moreover from np have "?R \<longleftrightarrow> (\<exists>k. 1 \<le> k \<and> k < - dr \<and> x = - k \<and> y = k)"
    by (simp add: sign_def)
  moreover have "(\<exists>k. 1 \<le> k \<and> k < - dr \<and> x = - k \<and> y = k) \<longleftrightarrow> y = - x \<and> 1 \<le> - x \<and> - x < - dr"
    by (auto intro: exI [of _ "- x"])
  ultimately show ?thesis by simp
next
  case nn
  then have "x * df = y * dr \<longleftrightarrow> y = x" by auto
  with nn have "?L \<longleftrightarrow> y = x \<and> 1 \<le> - x \<and> - x < - dr" by auto
  moreover from nn have "?R \<longleftrightarrow> (\<exists>k. 1 \<le> k \<and> k < - dr \<and> x = - k \<and> y = - k)"
    by (simp add: sign_def)
  moreover have "(\<exists>k. 1 \<le> k \<and> k < - dr \<and> x = - k \<and> y = - k) \<longleftrightarrow> y = x \<and> 1 \<le> - x \<and> - x < - dr"
    by (auto intro: exI [of _ "- x"])
  ultimately show ?thesis by simp
qed


lemma strictly_between_steps:
  assumes "on_line fr ff tr tf"
  shows "strictly_between (fr, ff) (tr, tf) (r, f) \<longleftrightarrow>
           (\<exists>k. 1 \<le> k \<and> k < (if sign (tr - fr) = 0 then \<bar>tf - ff\<bar> else \<bar>tr - fr\<bar>)
                \<and> r = fr + k * sign (tr - fr) \<and> f = ff + k * sign (tf - ff))"
proof -
  have line: "tr - fr = 0 \<or> tf - ff = 0 \<or> \<bar>tr - fr\<bar> = \<bar>tf - ff\<bar>"
    using assms by (auto simp: on_line_def)
  have "strictly_between (fr, ff) (tr, tf) (r, f) \<longleftrightarrow>
          ((r - fr, f - ff) \<noteq> (0, 0) \<and> (r - fr, f - ff) \<noteq> (tr - fr, tf - ff)
           \<and> (r - fr) * (tf - ff) = (f - ff) * (tr - fr)
           \<and> min 0 (tr - fr) \<le> r - fr \<and> r - fr \<le> max 0 (tr - fr)
           \<and> min 0 (tf - ff) \<le> f - ff \<and> f - ff \<le> max 0 (tf - ff))"
    unfolding strictly_between_def by (simp add: min_def max_def)
  also have "\<dots> \<longleftrightarrow>
          (\<exists>k. 1 \<le> k \<and> k < (if sign (tr - fr) = 0 then \<bar>tf - ff\<bar> else \<bar>tr - fr\<bar>)
                \<and> r - fr = k * sign (tr - fr) \<and> f - ff = k * sign (tf - ff))"
    by (rule between_offsets [OF line])
  also have "\<dots> \<longleftrightarrow>
          (\<exists>k. 1 \<le> k \<and> k < (if sign (tr - fr) = 0 then \<bar>tf - ff\<bar> else \<bar>tr - fr\<bar>)
                \<and> r = fr + k * sign (tr - fr) \<and> f = ff + k * sign (tf - ff))"
    by (simp add: algebra_simps)
  finally show ?thesis .
qed

lemma is_path_clear_between:
  assumes "on_line fr ff tr tf"
  shows "is_path_clear b fr ff tr tf \<longleftrightarrow>
           (\<forall>sq. strictly_between (fr, ff) (tr, tf) sq \<longrightarrow> b sq = CHR ''.'')"
proof
  assume clear: "is_path_clear b fr ff tr tf"
  show "\<forall>sq. strictly_between (fr, ff) (tr, tf) sq \<longrightarrow> b sq = CHR ''.''"
  proof (intro allI impI)
    fix sq :: "int \<times> int"
    assume "strictly_between (fr, ff) (tr, tf) sq"
    then obtain k where "1 \<le> k \<and> k < (if sign (tr - fr) = 0 then \<bar>tf - ff\<bar> else \<bar>tr - fr\<bar>)"
      and "sq = (fr + k * sign (tr - fr), ff + k * sign (tf - ff))"
      using strictly_between_steps [OF assms, of "fst sq" "snd sq"] by (cases sq) auto
    with clear show "b sq = CHR ''.''"
      unfolding is_path_clear_iff by blast
  qed
next
  assume empty: "\<forall>sq. strictly_between (fr, ff) (tr, tf) sq \<longrightarrow> b sq = CHR ''.''"
  show "is_path_clear b fr ff tr tf"
    unfolding is_path_clear_iff
  proof (intro allI impI)
    fix k
    assume "1 \<le> k \<and> k < (if sign (tr - fr) = 0 then \<bar>tf - ff\<bar> else \<bar>tr - fr\<bar>)"
    then have "strictly_between (fr, ff) (tr, tf)
                 (fr + k * sign (tr - fr), ff + k * sign (tf - ff))"
      unfolding strictly_between_steps [OF assms] by blast
    with empty show "b (fr + k * sign (tr - fr), ff + k * sign (tf - ff)) = CHR ''.''"
      by blast
  qed
qed

lemma is_valid_move_slider:
  assumes "toupper piece = CHR ''B'' \<or> toupper piece = CHR ''R'' \<or> toupper piece = CHR ''Q''"
    and "is_valid_move b piece fr ff tr tf is_white cap"
  shows "is_path_clear b fr ff tr tf"
  using assms unfolding is_valid_move_def Let_def
  by (auto split: if_splits)

text \<open>
  C6.  For two squares of the board on a common rank, file or diagonal, \<open>is_path_clear\<close>
  answers True exactly when every square strictly between them is empty; these squares
  are all on the board; and whenever one of them is occupied, the validator rejects the
  move for a bishop, rook or queen of either colour, capture or not.
\<close>

theorem sliding_path_blocked:
  assumes "on_board fr ff" and "on_board tr tf" and "on_line fr ff tr tf"
  shows "(is_path_clear b fr ff tr tf \<longleftrightarrow>
            (\<forall>sq. strictly_between (fr, ff) (tr, tf) sq \<longrightarrow> b sq = CHR ''.''))
         \<and> (\<forall>sq. strictly_between (fr, ff) (tr, tf) sq \<longrightarrow> on_board (fst sq) (snd sq))
         \<and> (\<forall>piece sq is_white cap.
               (toupper piece = CHR ''B'' \<or> toupper piece = CHR ''R'' \<or> toupper piece = CHR ''Q'')
               \<and> strictly_between (fr, ff) (tr, tf) sq \<and> b sq \<noteq> CHR ''.''
               \<longrightarrow> \<not> is_valid_move b piece fr ff tr tf is_white cap)"
proof (intro conjI allI impI)
  show "is_path_clear b fr ff tr tf \<longleftrightarrow>
          (\<forall>sq. strictly_between (fr, ff) (tr, tf) sq \<longrightarrow> b sq = CHR ''.'')"
    by (rule is_path_clear_between [OF assms(3)])
next
  fix sq :: "int \<times> int"
  assume "strictly_between (fr, ff) (tr, tf) sq"
  then show "on_board (fst sq) (snd sq)"
    using assms(1,2) by (auto simp: strictly_between_def on_board_def)
next
  fix piece sq is_white cap
  assume a: "(toupper piece = CHR ''B'' \<or> toupper piece = CHR ''R'' \<or> toupper piece = CHR ''Q'')
             \<and> strictly_between (fr, ff) (tr, tf) sq \<and> b sq \<noteq> CHR ''.''"
  then have "\<not> is_path_clear b fr ff tr tf"
    unfolding is_path_clear_between [OF assms(3)] by blast
  with a show "\<not> is_valid_move b piece fr ff tr tf is_white cap"
    using is_valid_move_slider [of piece b fr ff tr tf is_white cap] by blast
qed

theorem sliding_path_blocked_witness:
  "\<not> is_path_clear init_board 7 0 4 0
   \<and> \<not> is_valid_move init_board (CHR ''R'') 7 0 4 0 True False
   \<and> init_board (6, 0) = CHR ''P''"
proof -
  have h: "on_board 7 0" "on_board 4 0" "on_line 7 0 4 0"
    by (simp_all add: on_board_def on_line_def)
  have sb: "strictly_between (7, 0) (4, 0) (6, 0)"
    by (simp add: strictly_between_def)
  have p: "init_board (6, 0) = CHR ''P''"
    by code_simp
  note t = sliding_path_blocked [OF h, of init_board]
  have 1: "\<not> is_path_clear init_board 7 0 4 0"
    using t [THEN conjunct1] sb p by auto
  have 2: "\<not> is_valid_move init_board (CHR ''R'') 7 0 4 0 True False"
    using t [THEN conjunct2, THEN conjunct2, rule_format, of "CHR ''R''" "(6, 0)" True False] sb p
    by simp
  from 1 2 p show ?thesis by simp
qed

section \<open>Splitting the movetext\<close>

lemma extract_san_token_length:
  assumes "extract_san_token token out_size = Some san"
  shows "length san \<le> out_size - 1 \<or> length san < out_size"
  using assms
  by (auto simp: extract_san_token_def Let_def split: if_splits)

lemma extract_san_token_fits:
  assumes "extract_san_token token MOVE_TEXT_LEN = Some san"
  shows "take (MOVE_TEXT_LEN - 1) san = san"
  using extract_san_token_length [OF assms] by (auto simp: MOVE_TEXT_LEN_def)

lemma is_result_token_length: "is_result_token san \<Longrightarrow> length san \<le> 7"
  by (auto simp: is_result_token_def)

lemma move_loop_to_result:
  assumes "\<forall>u\<in>set pre. \<forall>v. extract_san_token u MOVE_TEXT_LEN = Some v \<longrightarrow> \<not> is_result_token v"
    and "extract_san_token token MOVE_TEXT_LEN = Some san" and "is_result_token san"
    and "8 \<le> result_out_size"
  shows "move_loop (pre @ token # post) max_moves result_out_size moves
           = (moves @ take (max_moves - length moves)
                        (List.map_filter (\<lambda>u. extract_san_token u MOVE_TEXT_LEN) pre),
              san)"
  using assms(1)
proof (induction pre arbitrary: moves)
  case Nil
  have "take (result_out_size - 1) san = san"
    using is_result_token_length [OF assms(3)] assms(4) by simp
  then show ?case
    using assms(2,3,4) by simp
next
  case (Cons u pre)
  show ?case
  proof (cases "extract_san_token u MOVE_TEXT_LEN")
    case None
    with Cons show ?thesis by simp
  next
    case (Some v)
    with Cons.prems have nr: "\<not> is_result_token v" by simp
    note fits = extract_san_token_fits [OF Some]
    show ?thesis
    proof (cases "length moves < max_moves")
      case True
      then have "take (max_moves - length moves) (v # xs)
                 = v # take (max_moves - length (moves @ [v])) xs" for xs
        by (simp add: take_Cons')
      with Cons Some nr True fits show ?thesis
        by simp
    next
      case False
      with Cons Some nr show ?thesis
        by simp
    qed
  qed
qed

lemma move_loop_no_result:
  "\<forall>m\<in>set moves. \<not> is_result_token m
   \<Longrightarrow> \<forall>m\<in>set (fst (move_loop tokens max_moves result_out_size moves)). \<not> is_result_token m"
proof (induction tokens arbitrary: moves)
  case Nil
  then show ?case by simp
next
  case (Cons u tokens)
  show ?case
  proof (cases "extract_san_token u MOVE_TEXT_LEN")
    case None
    with Cons show ?thesis by simp
  next
    case (Some v)
    note fits = extract_san_token_fits [OF Some]
    show ?thesis
    proof (cases "is_result_token v")
      case True
      with Some Cons.prems show ?thesis by simp
    next
      case False
      then have "\<forall>m\<in>set (moves @ [v]). \<not> is_result_token m"
        using Cons.prems by simp
      from Cons.IH [OF this] Cons.IH [OF Cons.prems] Some False fits show ?thesis
        by simp
    qed
  qed
qed

text \<open>
  C7.  Let the tokens of a movetext buffer be \<open>pre\<close>, then \<open>token\<close>, then \<open>post\<close>, where
  \<open>token\<close> is the first that after stripping is one of \<open>1-0\<close>, \<open>0-1\<close>, \<open>1/2-1/2\<close> and
  \<open>*\<close>.  Then \<open>build_move_list\<close> returns the stripped tokens of \<open>pre\<close> (as many as
  \<open>max_moves\<close> allows) as the moves and the stripped \<open>token\<close> as the result, given a
  result buffer of 8 characters or more: the result token is not among the moves, and
  nothing of \<open>post\<close> is produced.  No returned move is a result token.
\<close>

theorem build_move_list_stops_at_result:
  assumes "strtok_all (take 65535 move_buffer) = pre @ token # post"
    and "\<forall>u\<in>set pre. \<forall>v. extract_san_token u MOVE_TEXT_LEN = Some v \<longrightarrow> \<not> is_result_token v"
    and "extract_san_token token MOVE_TEXT_LEN = Some san" and "is_result_token san"
    and "8 \<le> result_out_size"
  shows "build_move_list move_buffer max_moves result_out_size
           = (take max_moves (List.map_filter (\<lambda>u. extract_san_token u MOVE_TEXT_LEN) pre), san)
         \<and> (\<forall>m\<in>set (fst (build_move_list move_buffer max_moves result_out_size)).
               \<not> is_result_token m)"
proof
  show "build_move_list move_buffer max_moves result_out_size
           = (take max_moves (List.map_filter (\<lambda>u. extract_san_token u MOVE_TEXT_LEN) pre), san)"
    using move_loop_to_result [OF assms(2-5), of post max_moves "[]"] assms(1)
    by (simp add: build_move_list_def)
  show "\<forall>m\<in>set (fst (build_move_list move_buffer max_moves result_out_size)).
               \<not> is_result_token m"
    using move_loop_no_result [of "[]"] by (simp add: build_move_list_def)
qed

theorem build_move_list_witness:
  "build_move_list ''1. e4 e5 2.Nf3! 1-0 Nc6'' 8192 16 = ([''e4'', ''e5'', ''Nf3''], ''1-0'')"
proof -
  have "strtok_all ''1. e4 e5 2.Nf3! 1-0 Nc6''
             = [''1.'', ''e4'', ''e5'', ''2.Nf3!''] @ ''1-0'' # [''Nc6'']"
    by code_simp
  then have t: "strtok_all (take 65535 ''1. e4 e5 2.Nf3! 1-0 Nc6'')
             = [''1.'', ''e4'', ''e5'', ''2.Nf3!''] @ ''1-0'' # [''Nc6'']"
    by simp
  have e: "extract_san_token ''1.'' MOVE_TEXT_LEN = None"
    "extract_san_token ''e4'' MOVE_TEXT_LEN = Some ''e4''"
    "extract_san_token ''e5'' MOVE_TEXT_LEN = Some ''e5''"
    "extract_san_token ''2.Nf3!'' MOVE_TEXT_LEN = Some ''Nf3''"
    "extract_san_token ''1-0'' MOVE_TEXT_LEN = Some ''1-0''"
    by code_simp+
  have r: "is_result_token ''1-0''"
    by (simp add: is_result_token_def)
  have n: "\<forall>u\<in>set [''1.'', ''e4'', ''e5'', ''2.Nf3!''].
             \<forall>v. extract_san_token u MOVE_TEXT_LEN = Some v \<longrightarrow> \<not> is_result_token v"
    by (simp add: e is_result_token_def)
  show ?thesis
    using build_move_list_stops_at_result [OF t n e(5) r, of 16 8192]
    by (simp add: e)
qed

section \<open>The candidates of a token\<close>

text \<open>
  What the validator accepts for each kind of piece, and from it a bound on the number
  of candidates: the array \<open>candidates\<close> has 16 entries and is never overrun.
\<close>

lemma is_valid_move_knight:
  assumes "toupper piece = CHR ''N''" and "is_valid_move b piece fr ff tr tf is_white cap"
  shows "(\<bar>tr - fr\<bar> = 1 \<and> \<bar>tf - ff\<bar> = 2) \<or> (\<bar>tr - fr\<bar> = 2 \<and> \<bar>tf - ff\<bar> = 1)"
  using assms unfolding is_valid_move_def Let_def
  by (simp split: if_splits)

lemma is_valid_move_king:
  assumes "toupper piece = CHR ''K''" and "is_valid_move b piece fr ff tr tf is_white cap"
  shows "\<bar>tr - fr\<bar> \<le> 1 \<and> \<bar>tf - ff\<bar> \<le> 1"
  using assms unfolding is_valid_move_def Let_def
  by (simp split: if_splits)

lemma is_valid_move_pawn_range:
  assumes "toupper piece = CHR ''P''" and "is_valid_move b piece fr ff tr tf is_white cap"
  shows "\<bar>tr - fr\<bar> \<le> 2 \<and> \<bar>tf - ff\<bar> \<le> 1"
proof (cases cap)
  case True
  with assms show ?thesis
    by (auto simp: is_valid_move_pawn_capture split: if_splits)
next
  case False
  with assms show ?thesis
    by (auto simp: is_valid_move_pawn_quiet split: if_splits)
qed

lemma is_valid_move_slider_line:
  assumes "toupper piece = CHR ''B'' \<or> toupper piece = CHR ''R'' \<or> toupper piece = CHR ''Q''"
    and "is_valid_move b piece fr ff tr tf is_white cap"
  shows "on_line fr ff tr tf"
  using assms unfolding is_valid_move_def Let_def on_line_def
  by (auto split: if_splits)

lemma is_valid_move_piece:
  assumes "is_valid_move b piece fr ff tr tf is_white cap"
  shows "toupper piece = CHR ''P'' \<or> toupper piece = CHR ''N'' \<or> toupper piece = CHR ''K''
         \<or> toupper piece = CHR ''B'' \<or> toupper piece = CHR ''R'' \<or> toupper piece = CHR ''Q''"
  using assms unfolding is_valid_move_def Let_def
  by (auto split: if_splits)


lemma line_offsets:
  assumes "on_line fr ff tr tf"
  shows "tr = fr + (if sign (tr - fr) = 0 then \<bar>tf - ff\<bar> else \<bar>tr - fr\<bar>) * sign (tr - fr)
         \<and> tf = ff + (if sign (tr - fr) = 0 then \<bar>tf - ff\<bar> else \<bar>tr - fr\<bar>) * sign (tf - ff)"
proof -
  have "tr - fr = 0 \<or> tf - ff = 0 \<or> \<bar>tr - fr\<bar> = \<bar>tf - ff\<bar>"
    using assms by (auto simp: on_line_def)
  then show ?thesis
    by (cases rule: line_cases) (simp_all add: sign_def)
qed

lemma slider_blocks_behind:
  assumes line1: "on_line r1 f1 tr tf" and line2: "on_line r2 f2 tr tf"
    and clear2: "is_path_clear b r2 f2 tr tf"
    and occupied: "b (r1, f1) \<noteq> CHR ''.''"
    and sr: "sign (tr - r1) = sign (tr - r2)" and sf: "sign (tf - f1) = sign (tf - f2)"
  shows "(if sign (tr - r2) = 0 then \<bar>tf - f2\<bar> else \<bar>tr - r2\<bar>)
         \<le> (if sign (tr - r1) = 0 then \<bar>tf - f1\<bar> else \<bar>tr - r1\<bar>)"
proof (rule ccontr)
  define n1 where "n1 = (if sign (tr - r1) = 0 then \<bar>tf - f1\<bar> else \<bar>tr - r1\<bar>)"
  define n2 where "n2 = (if sign (tr - r2) = 0 then \<bar>tf - f2\<bar> else \<bar>tr - r2\<bar>)"
  assume "\<not> ?thesis"
  then have less: "n1 < n2" by (simp add: n1_def n2_def)
  have n1: "0 \<le> n1" by (simp add: n1_def)
  have o1: "tr = r1 + n1 * sign (tr - r2)" "tf = f1 + n1 * sign (tf - f2)"
    using line_offsets [OF line1] sr sf by (simp_all add: n1_def)
  have o2: "tr = r2 + n2 * sign (tr - r2)" "tf = f2 + n2 * sign (tf - f2)"
    using line_offsets [OF line2] by (simp_all add: n2_def)
  have "r1 = r2 + (n2 - n1) * sign (tr - r2)" "f1 = f2 + (n2 - n1) * sign (tf - f2)"
    using o1 o2 by (simp_all add: algebra_simps)
  moreover have "1 \<le> n2 - n1 \<and> n2 - n1 < n2"
    using less n1
  proof -
    have "n1 \<noteq> 0"
    proof
      assume "n1 = 0"
      with o1 have "tr = r1" "tf = f1" by simp_all
      with sr sf have "sign (tr - r2) = 0" "sign (tf - f2) = 0" by (simp_all add: sign_def)
      from \<open>sign (tr - r2) = 0\<close> \<open>sign (tf - f2) = 0\<close> have "tr = r2" "tf = f2"
        by (simp_all add: sign_def split: if_splits)
      then have "n2 = 0" by (simp add: n2_def)
      with less n1 show False by simp
    qed
    with less n1 show ?thesis by simp
  qed
  ultimately have "b (r1, f1) = CHR ''.''"
    using clear2 unfolding is_path_clear_iff n2_def by blast
  with occupied show False by simp
qed

lemma slider_same_ray:
  assumes "on_line r1 f1 tr tf" and "on_line r2 f2 tr tf"
    and "is_path_clear b r1 f1 tr tf" and "is_path_clear b r2 f2 tr tf"
    and "b (r1, f1) \<noteq> CHR ''.''" and "b (r2, f2) \<noteq> CHR ''.''"
    and sr: "sign (tr - r1) = sign (tr - r2)" and sf: "sign (tf - f1) = sign (tf - f2)"
  shows "r1 = r2 \<and> f1 = f2"
proof -
  define n1 where "n1 = (if sign (tr - r1) = 0 then \<bar>tf - f1\<bar> else \<bar>tr - r1\<bar>)"
  define n2 where "n2 = (if sign (tr - r2) = 0 then \<bar>tf - f2\<bar> else \<bar>tr - r2\<bar>)"
  have "n2 \<le> n1"
    unfolding n1_def n2_def
    by (rule slider_blocks_behind [OF assms(1,2,4,5) sr sf])
  moreover have "n1 \<le> n2"
    unfolding n1_def n2_def
    by (rule slider_blocks_behind [OF assms(2,1,3,6) sr [symmetric] sf [symmetric]])
  ultimately have eq: "n1 = n2" by simp
  have "tr = r1 + n1 * sign (tr - r2)" "tf = f1 + n1 * sign (tf - f2)"
    using line_offsets [OF assms(1)] sr sf by (simp_all add: n1_def)
  moreover have "tr = r2 + n2 * sign (tr - r2)" "tf = f2 + n2 * sign (tf - f2)"
    using line_offsets [OF assms(2)] by (simp_all add: n2_def)
  ultimately show ?thesis using eq by simp
qed


lemma sign_range: "sign x \<in> {-1..1}"
  by (simp add: sign_def)

lemma candidates_le_keys:
  assumes "inj_on key (set cs)" and "key ` set cs \<subseteq> K" and "finite K" and "card K \<le> n"
    and "distinct cs"
  shows "length cs \<le> n"
proof -
  have "length cs = card (set cs)"
    using assms(5) by (simp add: distinct_card)
  also have "\<dots> \<le> card K"
    by (rule card_inj_on_le [OF assms(1,2,3)])
  finally show ?thesis using assms(4) by simp
qed

lemma find_candidates_bound: "length (find_candidates t is_white b) \<le> 16"
proof -
  let ?cs = "find_candidates t is_white b"
  let ?p = "toupper (target_piece t)"
  have dist: "distinct ?cs"
    by (simp add: find_candidates_def distinct_all_squares)
  have valid: "is_valid_move b (target_piece t) r f (target_r t) (target_f t) is_white (capture t)"
    and piece: "b (r, f) = target_piece t"
    if "(r, f) \<in> set ?cs" for r f
    using that by (simp_all add: find_candidates_def is_candidate_def)
  define delta where "delta = (\<lambda>sq :: int \<times> int. (target_r t - fst sq, target_f t - snd sq))"
  define ray where
    "ray = (\<lambda>sq :: int \<times> int. (sign (target_r t - fst sq), sign (target_f t - snd sq)))"
  have inj_delta: "inj_on delta (set ?cs)"
    by (auto simp: inj_on_def delta_def)
  consider (none) "?cs = []"
    | (pawn) "?p = CHR ''P''" | (knight) "?p = CHR ''N''" | (king) "?p = CHR ''K''"
    | (slider) "?p = CHR ''B'' \<or> ?p = CHR ''R'' \<or> ?p = CHR ''Q''"
  proof (cases "?cs")
    case Nil
    then show ?thesis using that by simp
  next
    case (Cons c cs')
    then have "(fst c, snd c) \<in> set ?cs" by simp
    from is_valid_move_piece [OF valid [OF this]] that show ?thesis by blast
  qed
  then show ?thesis
  proof cases
    case none
    then show ?thesis by simp
  next
    case pawn
    have "delta ` set ?cs \<subseteq> {-2..2} \<times> {-1..1}"
      using is_valid_move_pawn_range [OF pawn valid] by (fastforce simp: delta_def)
    then show ?thesis
      by (rule candidates_le_keys [OF inj_delta _ _ _ dist]) simp_all
  next
    case knight
    have "delta ` set ?cs \<subseteq> {-2, -1, 1, 2} \<times> {-2, -1, 1, 2}"
      using is_valid_move_knight [OF knight valid] by (fastforce simp: delta_def)
    then show ?thesis
      by (rule candidates_le_keys [OF inj_delta _ _ _ dist]) simp_all
  next
    case king
    have "delta ` set ?cs \<subseteq> {-1..1} \<times> {-1..1}"
      using is_valid_move_king [OF king valid] by (fastforce simp: delta_def)
    then show ?thesis
      by (rule candidates_le_keys [OF inj_delta _ _ _ dist]) simp_all
  next
    case slider
    then have occupied: "target_piece t \<noteq> CHR ''.''"
      by auto
    have "inj_on ray (set ?cs)"
    proof (rule inj_onI)
      fix c1 c2
      assume c1: "c1 \<in> set ?cs" and c2: "c2 \<in> set ?cs" and eq: "ray c1 = ray c2"
      obtain r1 f1 where 1: "c1 = (r1, f1)" by (cases c1)
      obtain r2 f2 where 2: "c2 = (r2, f2)" by (cases c2)
      have "r1 = r2 \<and> f1 = f2"
      proof (rule slider_same_ray)
        show "on_line r1 f1 (target_r t) (target_f t)"
          using is_valid_move_slider_line [OF slider valid] c1 1 by simp
        show "on_line r2 f2 (target_r t) (target_f t)"
          using is_valid_move_slider_line [OF slider valid] c2 2 by simp
        show "is_path_clear b r1 f1 (target_r t) (target_f t)"
          using is_valid_move_slider [OF slider valid] c1 1 by simp
        show "is_path_clear b r2 f2 (target_r t) (target_f t)"
          using is_valid_move_slider [OF slider valid] c2 2 by simp
        show "b (r1, f1) \<noteq> CHR ''.''"
          using piece c1 1 occupied by simp
        show "b (r2, f2) \<noteq> CHR ''.''"
          using piece c2 2 occupied by simp
        show "sign (target_r t - r1) = sign (target_r t - r2)"
          and "sign (target_f t - f1) = sign (target_f t - f2)"
          using eq by (simp_all add: ray_def 1 2)
      qed
      then show "c1 = c2" by (simp add: 1 2)
    qed
    moreover have "ray ` set ?cs \<subseteq> {-1..1} \<times> {-1..1}"
      using sign_range by (auto simp: ray_def)
    ultimately show ?thesis
      by (rule candidates_le_keys [OF _ _ _ _ dist]) simp_all
  qed
qed

section \<open>Disambiguation\<close>

lemma decode_target_on_board:
  assumes "decode_target clean_san pr is_white = Inr (Resolve t)"
  shows "on_board (target_r t) (target_f t)"
proof -
  define len where "len = int (length clean_san)"
  define to_f where "to_f = char_code (clean_san ! nat (len - 2)) - char_code (CHR ''a'')"
  define to_r where "to_r = 7 - (char_code (clean_san ! nat (len - 1)) - char_code (CHR ''1''))"
  have 1: "\<not> len < 2"
    using assms unfolding decode_target_def len_def [symmetric] by (auto simp: Let_def)
  have 2: "\<not> (to_r < 0 \<or> to_r \<ge> 8 \<or> to_f < 0 \<or> to_f \<ge> 8)"
    using assms 1 unfolding decode_target_def len_def [symmetric] Let_def
      to_f_def [symmetric] to_r_def [symmetric]
    by (auto simp del: One_nat_def)
  have "target_r t = to_r \<and> target_f t = to_f"
    using assms 1 2 unfolding decode_target_def len_def [symmetric] Let_def
      to_f_def [symmetric] to_r_def [symmetric]
    by (auto split: if_splits prod.splits)
  with 2 show ?thesis by (simp add: on_board_def)
qed

lemma decode_san_target_on_board:
  assumes "decode_san san is_white = Inr (Resolve t)"
  shows "on_board (target_r t) (target_f t)"
  using assms decode_target_on_board unfolding decode_san_def Let_def
  by (auto split: if_splits prod.splits)


lemma candidate_applies:
  assumes "on_board (target_r t) (target_f t)" and "c \<in> set (find_candidates t is_white b)"
  shows "\<exists>b1. apply_move (move_from t c) is_white b = Inr b1"
proof (rule apply_move_defined)
  obtain r f where c: "c = (r, f)" by (cases c)
  have on: "on_board r f"
    using assms(2) all_squares_on_board [of c] by (simp add: find_candidates_def c)
  have piece: "b (r, f) = target_piece t"
    and valid: "is_valid_move b (target_piece t) r f (target_r t) (target_f t) is_white (capture t)"
    using assms(2) by (simp_all add: find_candidates_def is_candidate_def c)
  show "on_board (from_r (move_from t c)) (from_f (move_from t c))"
    using on by (simp add: move_from_def c)
  show "on_board (to_r (move_from t c)) (to_f (move_from t c))"
    using assms(1) by (simp add: move_from_def)
  show "on_board (to_r (move_from t c) - (if is_white then -1 else 1)) (to_f (move_from t c))"
    if "toupper (b (from_r (move_from t c), from_f (move_from t c))) = CHR ''P''
        \<and> \<bar>from_f (move_from t c) - to_f (move_from t c)\<bar> = 1
        \<and> b (to_r (move_from t c), to_f (move_from t c)) = CHR ''.''"
  proof -
    from that have pawn: "toupper (target_piece t) = CHR ''P''" and side: "\<bar>f - target_f t\<bar> = 1"
      by (simp_all add: move_from_def c piece)
    have "target_r t - r = (if is_white then -1 else 1)"
    proof (cases "capture t")
      case True
      with valid pawn show ?thesis by (simp add: is_valid_move_pawn_capture)
    next
      case False
      with valid pawn side show ?thesis by (simp add: is_valid_move_pawn_quiet)
    qed
    then have "target_r t - (if is_white then -1 else 1) = r" by simp
    with on assms(1) show ?thesis
      by (simp add: move_from_def c on_board_def)
  qed
qed

lemma try_candidates_find:
  assumes "\<forall>c\<in>set cs. \<exists>b1. apply_move (move_from t c) is_white b = Inr b1"
  shows "try_candidates t is_white cs b
           = Inr (map_option (move_from t) (find (king_safe_after t is_white b) cs), b)"
  using assms
proof (induction cs)
  case Nil
  then show ?case by simp
next
  case (Cons c cs)
  then obtain b1 where b1: "apply_move (move_from t c) is_white b = Inr b1"
    by auto
  show ?case
  proof (cases "is_in_check b1 is_white")
    case True
    with b1 Cons show ?thesis by (simp add: king_safe_after_def)
  next
    case False
    with b1 show ?thesis by (simp add: king_safe_after_def)
  qed
qed

lemma sorted_find_candidates: "sorted_wrt sq_before (find_candidates t is_white b)"
  unfolding find_candidates_def by (rule sorted_wrt_filter [OF sorted_all_squares])

lemma resolve_many:
  assumes "on_board (target_r t) (target_f t)" and "2 \<le> length (find_candidates t is_white b)"
  shows "resolve t is_white b
           = Inr (map_option (move_from t)
                    (find (king_safe_after t is_white b) (find_candidates t is_white b)), b)"
proof -
  have "\<forall>c\<in>set (find_candidates t is_white b).
          \<exists>b1. apply_move (move_from t c) is_white b = Inr b1"
    using candidate_applies [OF assms(1)] by blast
  from try_candidates_find [OF this] assms(2) find_candidates_bound [of t is_white b]
  show ?thesis by (simp add: resolve_def Let_def)
qed

lemma resolve_board:
  assumes "on_board (target_r t) (target_f t)"
  shows "\<exists>res. resolve t is_white b = Inr (res, b)"
proof -
  consider "find_candidates t is_white b = []"
    | c where "find_candidates t is_white b = [c]"
    | "2 \<le> length (find_candidates t is_white b)"
    by (cases "find_candidates t is_white b" rule: list.exhaust; 
        cases "tl (find_candidates t is_white b)") auto
  then show ?thesis
  proof cases
    case 1
    then show ?thesis by (simp add: resolve_def)
  next
    case 2
    then show ?thesis by (simp add: resolve_def)
  next
    case 3
    from resolve_many [OF assms this] show ?thesis by blast
  qed
qed

text \<open>
  The text processing overruns \<open>hint_str\<close> only for a hint of four characters or more:
  never for a token body of at most five characters, or six when it starts with a piece
  letter, which covers every well-formed SAN move.
\<close>

lemma capture_loop_range:
  "capture_loop s len i = 0 \<or> (i \<le> capture_loop s len i \<and> capture_loop s len i < len - 2)"
proof (induction s len i rule: capture_loop.induct)
  case (1 s len i)
  show ?case
  proof (cases "i < len - 2")
    case False
    then show ?thesis by (simp add: capture_loop.simps [of s len i])
  next
    case True
    show ?thesis
    proof (cases "s ! nat i = CHR ''x''")
      case x: True
      with True show ?thesis by (simp add: capture_loop.simps [of s len i])
    next
      case False
      with True 1 show ?thesis by (auto simp: capture_loop.simps [of s len i])
    qed
  qed
qed

lemma decode_target_fits:
  assumes "length clean_san
             \<le> (if isupper (clean_san ! 0) \<and> clean_san ! 0 \<in> set ''RNBQK'' then 6 else 5)"
  shows "\<exists>d. decode_target clean_san pr is_white = Inr d"
proof -
  define len where "len = int (length clean_san)"
  define hint_start :: int where
    "hint_start = (if isupper (clean_san ! 0) \<and> clean_san ! 0 \<in> set ''RNBQK'' then 1 else 0)"
  define capture_pos where "capture_pos = capture_loop clean_san len hint_start"
  have "len \<le> 5 + hint_start"
    using assms by (auto simp: len_def hint_start_def split: if_splits)
  moreover have "capture_pos = 0 \<or> capture_pos < len - 2"
    using capture_loop_range [of clean_san len hint_start] by (auto simp: capture_pos_def)
  ultimately have "\<not> 4 \<le> (if capture_pos > 0 then capture_pos else len - 2) - hint_start"
    by auto
  then show ?thesis
    unfolding decode_target_def Let_def len_def [symmetric] hint_start_def [symmetric]
      capture_pos_def [symmetric]
    by (simp add: case_prod_beta)
qed

lemma decode_san_fits:
  assumes "san \<noteq> []" and "length san \<le> 5"
  shows "\<exists>d. decode_san san is_white = Inr d"
proof -
  define cs where "cs = strip_check san"
  have "length cs \<le> length san"
    by (simp add: cs_def strip_check_def)
  moreover have "length (snd (split_promo cs)) \<le> length cs"
    by (simp add: split_promo_def length_takeWhile_le)
  ultimately have "length (snd (split_promo cs)) \<le> 5"
    using assms(2) by simp
  then have t: "\<exists>d. decode_target (snd (split_promo cs)) (fst (split_promo cs)) is_white = Inr d"
    by (intro decode_target_fits) auto
  have bounds: "\<not> (san = [] \<or> 16 \<le> length san)"
    using assms by simp
  consider (short) "cs = ''O-O'' \<or> cs = ''0-0''"
    | (long) "\<not> (cs = ''O-O'' \<or> cs = ''0-0'')" "cs = ''O-O-O'' \<or> cs = ''0-0-0''"
    | (other) "\<not> (cs = ''O-O'' \<or> cs = ''0-0'')" "\<not> (cs = ''O-O-O'' \<or> cs = ''0-0-0'')"
    by blast
  then show ?thesis
  proof cases
    case short
    then have "decode_san san is_white = Inr (Castling (castle_move is_white 6))"
      unfolding decode_san_def Let_def cs_def [symmetric] if_not_P [OF bounds] by (rule if_P)
    then show ?thesis by blast
  next
    case long
    then have "decode_san san is_white = Inr (Castling (castle_move is_white 2))"
      unfolding decode_san_def Let_def cs_def [symmetric] if_not_P [OF bounds]
      by (simp only: if_P if_not_P if_False)
    then show ?thesis by blast
  next
    case other
    then have "decode_san san is_white
                 = decode_target (snd (split_promo cs)) (fst (split_promo cs)) is_white"
      unfolding decode_san_def Let_def cs_def [symmetric] if_not_P [OF bounds]
      by (simp only: if_P if_not_P if_False case_prod_beta)
    with t show ?thesis by simp
  qed
qed

text \<open>
  C1.  For a token that reaches candidate generation, \<open>t\<close> being what was read from it:
  with no candidate \<open>parse_san\<close> fails; with exactly one it returns the move from that
  candidate, whatever becomes of the king; with two or more, every trial application
  stays on the board, and \<open>parse_san\<close> returns the move from the first candidate after
  whose application the mover's king is not in check, and fails if there is none.  The
  candidates stand in scan order, rank-major and file-minor.  The board is returned as
  it was.
\<close>

theorem parse_san_disambiguation:
  assumes "decode_san san is_white = Inr (Resolve t)"
  shows "(find_candidates t is_white b = [] \<longrightarrow> parse_san san is_white b = Inr (None, b))
         \<and> (\<forall>c. find_candidates t is_white b = [c]
                \<longrightarrow> parse_san san is_white b = Inr (Some (move_from t c), b))
         \<and> (2 \<le> length (find_candidates t is_white b) \<longrightarrow>
              (\<forall>c\<in>set (find_candidates t is_white b).
                  \<exists>b1. apply_move (move_from t c) is_white b = Inr b1)
              \<and> parse_san san is_white b
                  = Inr (map_option (move_from t)
                           (find (king_safe_after t is_white b) (find_candidates t is_white b)),
                         b))
         \<and> sorted_wrt sq_before (find_candidates t is_white b)"
proof (intro conjI impI allI)
  assume "find_candidates t is_white b = []"
  then show "parse_san san is_white b = Inr (None, b)"
    by (rule parse_san_no_candidate [OF assms])
next
  fix c assume "find_candidates t is_white b = [c]"
  then show "parse_san san is_white b = Inr (Some (move_from t c), b)"
    by (rule parse_san_one_candidate [OF assms])
next
  assume "2 \<le> length (find_candidates t is_white b)"
  show "\<forall>c\<in>set (find_candidates t is_white b).
          \<exists>b1. apply_move (move_from t c) is_white b = Inr b1"
    using candidate_applies [OF decode_san_target_on_board [OF assms]] by blast
next
  assume "2 \<le> length (find_candidates t is_white b)"
  from resolve_many [OF decode_san_target_on_board [OF assms] this]
  show "parse_san san is_white b
          = Inr (map_option (move_from t)
                   (find (king_safe_after t is_white b) (find_candidates t is_white b)), b)"
    using assms by (simp add: parse_san_def)
next
  show "sorted_wrt sq_before (find_candidates t is_white b)"
    by (rule sorted_find_candidates)
qed

theorem parse_san_disambiguation_witness:
  "find_candidates \<lparr>target_piece = CHR ''N'', target_r = 5, target_f = 2, capture = False,
                     hint_f = -1, hint_r = -1, target_promo = CHR 0x00\<rparr> True pinned_board
     = [(6, 4), (7, 1)]
   \<and> parse_san ''Nc3'' True pinned_board
     = Inr (Some \<lparr>from_r = 7, from_f = 1, to_r = 5, to_f = 2, promo = CHR 0x00\<rparr>, pinned_board)
   \<and> find_candidates \<lparr>target_piece = CHR ''N'', target_r = 6, target_f = 3, capture = False,
                     hint_f = -1, hint_r = -1, target_promo = CHR 0x00\<rparr> True unsafe_board
     = [(7, 1), (7, 5)]
   \<and> parse_san ''Nd2'' True unsafe_board = Inr (None, unsafe_board)
   \<and> parse_san ''Nc3'' True unsafe_board
     = Inr (Some \<lparr>from_r = 7, from_f = 1, to_r = 5, to_f = 2, promo = CHR 0x00\<rparr>, unsafe_board)
   \<and> parse_san ''Na3'' True pinned_board
     = Inr (Some \<lparr>from_r = 7, from_f = 1, to_r = 5, to_f = 0, promo = CHR 0x00\<rparr>, pinned_board)
   \<and> parse_san ''Nh3'' True pinned_board = Inr (None, pinned_board)"
proof -
  let ?t1 = "\<lparr>target_piece = CHR ''N'', target_r = 5, target_f = 2, capture = False,
              hint_f = -1, hint_r = -1, target_promo = CHR 0x00\<rparr>"
  let ?t2 = "\<lparr>target_piece = CHR ''N'', target_r = 6, target_f = 3, capture = False,
              hint_f = -1, hint_r = -1, target_promo = CHR 0x00\<rparr>"
  let ?t3 = "\<lparr>target_piece = CHR ''N'', target_r = 5, target_f = 0, capture = False,
              hint_f = -1, hint_r = -1, target_promo = CHR 0x00\<rparr>"
  let ?t4 = "\<lparr>target_piece = CHR ''N'', target_r = 5, target_f = 7, capture = False,
              hint_f = -1, hint_r = -1, target_promo = CHR 0x00\<rparr>"
  have d: "decode_san ''Nc3'' True = Inr (Resolve ?t1)" "decode_san ''Nd2'' True = Inr (Resolve ?t2)"
    "decode_san ''Na3'' True = Inr (Resolve ?t3)" "decode_san ''Nh3'' True = Inr (Resolve ?t4)"
    by code_simp+
  have c: "find_candidates ?t1 True pinned_board = [(6, 4), (7, 1)]"
    "find_candidates ?t2 True unsafe_board = [(7, 1), (7, 5)]"
    "find_candidates ?t1 True unsafe_board = [(7, 1)]"
    "find_candidates ?t3 True pinned_board = [(7, 1)]"
    "find_candidates ?t4 True pinned_board = []"
    by code_simp+
  have f: "find (king_safe_after ?t1 True pinned_board) [(6, 4), (7, 1)] = Some (7, 1)"
    "find (king_safe_after ?t2 True unsafe_board) [(7, 1), (7, 5)] = None"
    by code_simp+
  have 1: "parse_san ''Nc3'' True pinned_board
     = Inr (Some \<lparr>from_r = 7, from_f = 1, to_r = 5, to_f = 2, promo = CHR 0x00\<rparr>, pinned_board)"
    using parse_san_disambiguation [OF d(1), of pinned_board] c(1) f(1)
    by (simp add: move_from_def)
  have 2: "parse_san ''Nd2'' True unsafe_board = Inr (None, unsafe_board)"
    using parse_san_disambiguation [OF d(2), of unsafe_board] c(2) f(2)
    by simp
  have 3: "parse_san ''Nc3'' True unsafe_board
     = Inr (Some \<lparr>from_r = 7, from_f = 1, to_r = 5, to_f = 2, promo = CHR 0x00\<rparr>, unsafe_board)"
    using parse_san_disambiguation [OF d(1), of unsafe_board] c(3)
    by (simp add: move_from_def)
  have 4: "parse_san ''Na3'' True pinned_board
     = Inr (Some \<lparr>from_r = 7, from_f = 1, to_r = 5, to_f = 0, promo = CHR 0x00\<rparr>, pinned_board)"
    using parse_san_disambiguation [OF d(3), of pinned_board] c(4)
    by (simp add: move_from_def)
  have 5: "parse_san ''Nh3'' True pinned_board = Inr (None, pinned_board)"
    using parse_san_disambiguation [OF d(4), of pinned_board] c(5)
    by simp
  from c(1,2) 1 2 3 4 5 show ?thesis by simp
qed

text \<open>
  C2.  Whenever \<open>parse_san\<close> returns, with a move or with failure, the board is square
  for square the board before the call; and it does return whenever the token fits the
  character buffers of the text processing (\<open>decode_san\<close> gives no error).
\<close>

theorem parse_san_restores_board:
  "(\<forall>res b'. parse_san san is_white b = Inr (res, b') \<longrightarrow> b' = b)
   \<and> ((\<exists>d. decode_san san is_white = Inr d) \<longrightarrow> (\<exists>res. parse_san san is_white b = Inr (res, b)))"
proof -
  have ret: "\<exists>res. parse_san san is_white b = Inr (res, b)" if "decode_san san is_white = Inr d" for d
  proof (cases d)
    case (Castling m)
    with that show ?thesis by (simp add: parse_san_def)
  next
    case NoMove
    with that show ?thesis by (simp add: parse_san_def)
  next
    case (Resolve t)
    with that have "on_board (target_r t) (target_f t)"
      by (simp add: decode_san_target_on_board)
    from resolve_board [OF this, of is_white b] Resolve that
    show ?thesis by (simp add: parse_san_def)
  qed
  have "b' = b" if "parse_san san is_white b = Inr (res, b')" for res b'
  proof (cases "decode_san san is_white")
    case (Inl e)
    with that show ?thesis by (simp add: parse_san_def)
  next
    case (Inr d)
    from ret [OF this] that show ?thesis by auto
  qed
  with ret show ?thesis by blast
qed

theorem parse_san_restores_board_witness:
  "map_sum id snd (parse_san ''Nc3'' True pinned_board) = Inr pinned_board
   \<and> map_sum id snd (parse_san ''Nd2'' True unsafe_board) = Inr unsafe_board"
proof -
  have "decode_san ''Nc3'' True
          = Inr (Resolve \<lparr>target_piece = CHR ''N'', target_r = 5, target_f = 2, capture = False,
                           hint_f = -1, hint_r = -1, target_promo = CHR 0x00\<rparr>)"
    and "decode_san ''Nd2'' True
          = Inr (Resolve \<lparr>target_piece = CHR ''N'', target_r = 6, target_f = 3, capture = False,
                           hint_f = -1, hint_r = -1, target_promo = CHR 0x00\<rparr>)"
    by code_simp+
  then have "\<exists>d. decode_san ''Nc3'' True = Inr d" "\<exists>d. decode_san ''Nd2'' True = Inr d"
    by simp_all
  then obtain res1 res2 where "parse_san ''Nc3'' True pinned_board = Inr (res1, pinned_board)"
    and "parse_san ''Nd2'' True unsafe_board = Inr (res2, unsafe_board)"
    using parse_san_restores_board [of "''Nc3''" True pinned_board]
      parse_san_restores_board [of "''Nd2''" True unsafe_board]
    by blast
  then show ?thesis by simp
qed

section \<open>The squares a played move changes\<close>

text \<open>
  \<open>apply_move\<close> is called with the move \<open>parse_san\<close> has just returned, and inside
  \<open>parse_san\<close> with a trial candidate, for the same side and on the same board.  Such a
  move is a castling move or runs from a candidate to the target, and a candidate pawn
  that changes file advances one row in the mover's direction.
\<close>

lemma decode_target_not_castling: "decode_target clean_san pr is_white \<noteq> Inr (Castling m)"
  unfolding decode_target_def Let_def
  by (simp add: case_prod_beta)

lemma decode_san_castling_move:
  assumes "decode_san san is_white = Inr (Castling m)"
  shows "m = castle_move is_white 6 \<or> m = castle_move is_white 2"
proof -
  define cs where "cs = strip_check san"
  have bounds: "\<not> (san = [] \<or> 16 \<le> length san)"
    using assms unfolding decode_san_def by (cases "san = [] \<or> 16 \<le> length san") simp_all
  consider (short) "cs = ''O-O'' \<or> cs = ''0-0''"
    | (long) "\<not> (cs = ''O-O'' \<or> cs = ''0-0'')" "cs = ''O-O-O'' \<or> cs = ''0-0-0''"
    | (other) "\<not> (cs = ''O-O'' \<or> cs = ''0-0'')" "\<not> (cs = ''O-O-O'' \<or> cs = ''0-0-0'')"
    by blast
  then show ?thesis
  proof cases
    case short
    then have "decode_san san is_white = Inr (Castling (castle_move is_white 6))"
      unfolding decode_san_def Let_def cs_def [symmetric] if_not_P [OF bounds] by (rule if_P)
    with assms show ?thesis by simp
  next
    case long
    then have "decode_san san is_white = Inr (Castling (castle_move is_white 2))"
      unfolding decode_san_def Let_def cs_def [symmetric] if_not_P [OF bounds]
      by (simp only: if_P if_not_P if_False)
    with assms show ?thesis by simp
  next
    case other
    then have "decode_san san is_white
                 = decode_target (snd (split_promo cs)) (fst (split_promo cs)) is_white"
      unfolding decode_san_def Let_def cs_def [symmetric] if_not_P [OF bounds]
      by (simp only: if_P if_not_P if_False case_prod_beta)
    with assms decode_target_not_castling show ?thesis by metis
  qed
qed

lemma resolve_move_candidate:
  assumes "on_board (target_r t) (target_f t)" and "resolve t is_white b = Inr (Some m, b0)"
  shows "\<exists>c\<in>set (find_candidates t is_white b). m = move_from t c"
proof -
  let ?cs = "find_candidates t is_white b"
  consider "?cs = []" | c where "?cs = [c]" | "2 \<le> length ?cs"
    by (cases ?cs rule: list.exhaust; cases "tl ?cs") auto
  then show ?thesis
  proof cases
    case 1
    with assms(2) show ?thesis by (simp add: resolve_def)
  next
    case 2
    with assms(2) show ?thesis by (simp add: resolve_def)
  next
    case 3
    from resolve_many [OF assms(1) 3] assms(2)
    have "map_option (move_from t) (find (king_safe_after t is_white b) ?cs) = Some m"
      by simp
    then obtain c where "find (king_safe_after t is_white b) ?cs = Some c"
      and "m = move_from t c"
      by (auto simp: map_option_eq_Some)
    moreover from this(1) have "c \<in> set ?cs"
      by (auto simp: find_Some_iff)
    ultimately show ?thesis by blast
  qed
qed

lemma parse_san_move_origin:
  assumes "parse_san san is_white b = Inr (Some m, b0)"
  shows "m = castle_move is_white 6 \<or> m = castle_move is_white 2
         \<or> (\<exists>t c. decode_san san is_white = Inr (Resolve t)
                  \<and> c \<in> set (find_candidates t is_white b) \<and> m = move_from t c)"
proof (cases "decode_san san is_white")
  case (Inl e)
  with assms show ?thesis by (simp add: parse_san_def)
next
  case (Inr d)
  show ?thesis
  proof (cases d)
    case (Castling m')
    with Inr assms have "m' = m" by (simp add: parse_san_def)
    with Inr Castling decode_san_castling_move [of san is_white m] show ?thesis by simp
  next
    case NoMove
    with Inr assms show ?thesis by (simp add: parse_san_def)
  next
    case (Resolve t)
    with Inr assms have r: "resolve t is_white b = Inr (Some m, b0)"
      by (simp add: parse_san_def)
    from Inr Resolve have "on_board (target_r t) (target_f t)"
      by (simp add: decode_san_target_on_board)
    from resolve_move_candidate [OF this r] Inr Resolve show ?thesis by blast
  qed
qed

lemma candidate_pawn_forward:
  assumes "c \<in> set (find_candidates t is_white b)"
    and "toupper (b c) = CHR ''P''" and "\<bar>snd c - target_f t\<bar> = 1"
  shows "target_r t - fst c = (if is_white then -1 else 1)"
proof -
  obtain r f where c: "c = (r, f)" by (cases c)
  have piece: "b (r, f) = target_piece t"
    and valid: "is_valid_move b (target_piece t) r f (target_r t) (target_f t) is_white (capture t)"
    using assms(1) by (simp_all add: find_candidates_def is_candidate_def c)
  from assms(2) piece have pawn: "toupper (target_piece t) = CHR ''P''"
    by (simp add: c)
  from assms(3) have side: "\<bar>f - target_f t\<bar> = 1"
    by (simp add: c)
  show ?thesis
  proof (cases "capture t")
    case True
    with valid pawn show ?thesis by (simp add: is_valid_move_pawn_capture c)
  next
    case False
    with valid pawn side show ?thesis by (simp add: is_valid_move_pawn_quiet)
  qed
qed

lemma candidate_frame:
  assumes "on_board (target_r t) (target_f t)" and "c \<in> set (find_candidates t is_white b)"
  shows "\<exists>b'. apply_move (move_from t c) is_white b = Inr b'
              \<and> (\<forall>sq. sq \<notin> set (origin_row_frame (move_from t c) b) \<longrightarrow> b' sq = b sq)"
proof -
  from candidate_applies [OF assms] obtain b' where
    b': "apply_move (move_from t c) is_white b = Inr b'" by blast
  have "touched (move_from t c) is_white b = origin_row_frame (move_from t c) b"
  proof (rule touched_origin_row)
    assume "toupper (b (from_r (move_from t c), from_f (move_from t c))) = CHR ''P''
            \<and> \<bar>from_f (move_from t c) - to_f (move_from t c)\<bar> = 1
            \<and> b (to_r (move_from t c), to_f (move_from t c)) = CHR ''.''"
    then have "toupper (b c) = CHR ''P''" and "\<bar>snd c - target_f t\<bar> = 1"
      by (simp_all add: move_from_def)
    from candidate_pawn_forward [OF assms(2) this]
    show "to_r (move_from t c) - from_r (move_from t c) = (if is_white then -1 else 1)"
      by (simp add: move_from_def)
  qed
  with apply_move_touched [OF b'] b' show ?thesis by simp
qed

lemma castle_frame:
  assumes "file = 6 \<or> file = 2"
  shows "\<exists>b'. apply_move (castle_move is_white file) is_white b = Inr b'
              \<and> (\<forall>sq. sq \<notin> set (origin_row_frame (castle_move is_white file) b)
                       \<longrightarrow> b' sq = b sq)"
proof -
  have "\<exists>b'. apply_move (castle_move is_white file) is_white b = Inr b'"
    using assms by (intro apply_move_defined) (auto simp: castle_move_def on_board_def)
  then obtain b' where b': "apply_move (castle_move is_white file) is_white b = Inr b'"
    by blast
  have "touched (castle_move is_white file) is_white b
          = origin_row_frame (castle_move is_white file) b"
    using assms by (intro touched_origin_row) (auto simp: castle_move_def)
  with apply_move_touched [OF b'] b' show ?thesis by simp
qed

text \<open>
  C9.  For every side to move and every move \<open>apply_move\<close> receives, that is a move
  returned by \<open>parse_san\<close> or a trial candidate of its disambiguation loop on that board,
  \<open>apply_move\<close> stays inside the board and changes at most these squares, leaving every
  other square unchanged: the origin, the destination, the square at (origin row,
  destination file) when the moved piece is a pawn shifting one file onto an empty
  destination, and the rook's origin and target squares (file 7 to file 5, or file 0 to
  file 3, on the king's origin rank) when the moved piece is a king shifting two files.
\<close>

theorem apply_move_frame:
  assumes "parse_san san is_white b = Inr (Some m, b0)
           \<or> (\<exists>t c. decode_san san is_white = Inr (Resolve t)
                    \<and> c \<in> set (find_candidates t is_white b) \<and> m = move_from t c)"
  shows "\<exists>b'. apply_move m is_white b = Inr b'
              \<and> (\<forall>sq. sq \<notin> set (origin_row_frame m b) \<longrightarrow> b' sq = b sq)"
proof -
  from assms parse_san_move_origin [of san is_white b m b0]
  consider (castle) "m = castle_move is_white 6 \<or> m = castle_move is_white 2"
    | (candidate) t c where "decode_san san is_white = Inr (Resolve t)"
        "c \<in> set (find_candidates t is_white b)" "m = move_from t c"
    by blast
  then show ?thesis
  proof cases
    case castle
    then show ?thesis
      using castle_frame [of 6 is_white b] castle_frame [of 2 is_white b] by auto
  next
    case candidate
    from candidate_frame [OF decode_san_target_on_board [OF candidate(1)] candidate(2)]
    show ?thesis by (simp add: candidate(3))
  qed
qed

theorem apply_move_frame_witness:
  "parse_san ''exd6'' True ep_board = Inr (Some ep_move, ep_board)
   \<and> origin_row_frame ep_move ep_board = [(3, 4), (2, 3), (3, 3)]
   \<and> (case apply_move ep_move True ep_board of
         Inl e \<Rightarrow> False
       | Inr b' \<Rightarrow> b' (7, 4) = ep_board (7, 4) \<and> b' (0, 4) = ep_board (0, 4)
                  \<and> b' (1, 3) = ep_board (1, 3))
   \<and> origin_row_frame (move_from \<lparr>target_piece = CHR ''N'', target_r = 5, target_f = 2,
                                    capture = False, hint_f = -1, hint_r = -1,
                                    target_promo = CHR 0x00\<rparr> (6, 4)) pinned_board
       = [(6, 4), (5, 2)]
   \<and> (case apply_move (move_from \<lparr>target_piece = CHR ''N'', target_r = 5, target_f = 2,
                                   capture = False, hint_f = -1, hint_r = -1,
                                   target_promo = CHR 0x00\<rparr> (6, 4)) True pinned_board of
         Inl e \<Rightarrow> False
       | Inr b' \<Rightarrow> b' (7, 4) = pinned_board (7, 4) \<and> b' (0, 4) = pinned_board (0, 4))"
proof -
  let ?te = "\<lparr>target_piece = CHR ''P'', target_r = 2, target_f = 3, capture = True,
              hint_f = 4, hint_r = -1, target_promo = CHR 0x00\<rparr>"
  let ?tn = "\<lparr>target_piece = CHR ''N'', target_r = 5, target_f = 2, capture = False,
              hint_f = -1, hint_r = -1, target_promo = CHR 0x00\<rparr>"
  have d: "decode_san ''exd6'' True = Inr (Resolve ?te)" "decode_san ''Nc3'' True = Inr (Resolve ?tn)"
    by code_simp+
  have c: "find_candidates ?te True ep_board = [(3, 4)]"
    "find_candidates ?tn True pinned_board = [(6, 4), (7, 1)]"
    by code_simp+
  have p: "parse_san ''exd6'' True ep_board = Inr (Some ep_move, ep_board)"
    using parse_san_one_candidate [OF d(1) c(1)] by (simp add: move_from_def ep_move_def)
  have f: "origin_row_frame ep_move ep_board = [(3, 4), (2, 3), (3, 3)]"
    "origin_row_frame (move_from ?tn (6, 4)) pinned_board = [(6, 4), (5, 2)]"
    by code_simp+
  from apply_move_frame [of "''exd6''" True ep_board ep_move ep_board] p
  obtain b1 where b1: "apply_move ep_move True ep_board = Inr b1"
    and u1: "\<forall>sq. sq \<notin> set (origin_row_frame ep_move ep_board) \<longrightarrow> b1 sq = ep_board sq"
    by blast
  have 1: "b1 (7, 4) = ep_board (7, 4) \<and> b1 (0, 4) = ep_board (0, 4)
           \<and> b1 (1, 3) = ep_board (1, 3)"
    using u1 unfolding f(1) by simp
  have "\<exists>t c. decode_san ''Nc3'' True = Inr (Resolve t)
             \<and> c \<in> set (find_candidates t True pinned_board)
             \<and> move_from ?tn (6, 4) = move_from t c"
    using d(2) c(2) by (intro exI [of _ ?tn] exI [of _ "(6, 4)"]) simp
  with apply_move_frame [of "''Nc3''" True pinned_board "move_from ?tn (6, 4)"]
  obtain b2 where b2: "apply_move (move_from ?tn (6, 4)) True pinned_board = Inr b2"
    and u2: "\<forall>sq. sq \<notin> set (origin_row_frame (move_from ?tn (6, 4)) pinned_board)
                  \<longrightarrow> b2 sq = pinned_board sq"
    by blast
  have 2: "b2 (7, 4) = pinned_board (7, 4) \<and> b2 (0, 4) = pinned_board (0, 4)"
    using u2 unfolding f(2) by simp
  from p f 1 2 b1 b2 show ?thesis by simp
qed

end
